theory Spec2Isabelle
  imports Main
begin

unbundle bit_operations_syntax

section \<open>Python values used by \<open>pybridge_helpers.py\<close>\<close>

text \<open>
  The file under verification is

  \<^verbatim>\<open>
  import json

  def morphy_to_json(morphy, form, pos=None):
      result = morphy(form, pos)
      return json.dumps({k if k is not None else 'null': list(v) for k, v in result.items()})
  \<close>

  A Python \<open>str\<close> is a sequence of Unicode code points, so it is modelled as a list of
  naturals (a code point is below \<open>0x110000\<close>; surrogate code points may occur in a
  Python \<open>str\<close>). The text returned by \<open>json.dumps\<close> is pure ASCII (the default
  \<open>ensure_ascii=True\<close>) and is modelled as a HOL \<open>string\<close>.
\<close>

type_synonym pystr = "nat list"

definition py_str :: "string \<Rightarrow> pystr" where
  "py_str s = map of_char s"

definition valid_str :: "pystr \<Rightarrow> bool" where
  "valid_str s = list_all (\<lambda>c. c < 0x110000) s"

text \<open>
  A \<open>dict\<close> keeps its entries in insertion order and has unique keys: it is an association
  list. \<open>d[k] = v\<close> overwrites the value of an existing key in place (the entry keeps its
  position) and appends a new key at the end.
\<close>

type_synonym ('k, 'v) pydict = "('k \<times> 'v) list"

fun dict_setitem :: "('k, 'v) pydict \<Rightarrow> 'k \<Rightarrow> 'v \<Rightarrow> ('k, 'v) pydict" where
  "dict_setitem [] k v = [(k, v)]"
| "dict_setitem ((k', v') # d) k v =
     (if k' = k then (k', v) # d else (k', v') # dict_setitem d k v)"

definition dict_items :: "('k, 'v) pydict \<Rightarrow> ('k \<times> 'v) list" where
  "dict_items d = d"

definition is_dict :: "('k, 'v) pydict \<Rightarrow> bool" where
  "is_dict d = distinct (map fst d)"

text \<open>
  The mapping returned by the lookup: its keys are a part of speech (a \<open>str\<close>) or
  \<open>None\<close>, its values are collections of strings. A collection is given by the sequence
  in which it is iterated; \<open>list(v)\<close> builds the list of that sequence.
\<close>

type_synonym collection = "pystr list"

type_synonym lookup_result = "(pystr option, collection) pydict"

definition py_list :: "collection \<Rightarrow> pystr list" where
  "py_list v = v"

section \<open>\<open>json.dumps\<close> on a dict of lists of strings\<close>

text \<open>
  The standard library's encoder with its default arguments: strings are written by
  \<open>encode_basestring_ascii\<close>, items are separated by \<open>", "\<close> and a key from its value by
  \<open>": "\<close>. \<open>format_04x\<close> is \<open>'{0:04x}'.format(n)\<close> for \<open>n < 0x10000\<close>, the only values
  the encoder formats.
\<close>

definition hexdigit :: "nat \<Rightarrow> char" where
  "hexdigit d = (if d < 10 then char_of (48 + d) else char_of (87 + d))"

definition format_04x :: "nat \<Rightarrow> string" where
  "format_04x n =
     [hexdigit (n div 4096 mod 16), hexdigit (n div 256 mod 16),
      hexdigit (n div 16 mod 16), hexdigit (n mod 16)]"

definition escape_char :: "nat \<Rightarrow> string" where
  "escape_char n =
     (if n = 0x5C then [CHR 0x5C, CHR 0x5C]
      else if n = 0x22 then [CHR 0x5C, CHR 0x22]
      else if n = 0x08 then [CHR 0x5C, CHR ''b'']
      else if n = 0x0C then [CHR 0x5C, CHR ''f'']
      else if n = 0x0A then [CHR 0x5C, CHR ''n'']
      else if n = 0x0D then [CHR 0x5C, CHR ''r'']
      else if n = 0x09 then [CHR 0x5C, CHR ''t'']
      else if 0x20 \<le> n \<and> n \<le> 0x7E then [char_of n]
      else if n < 0x10000 then CHR 0x5C # CHR ''u'' # format_04x n
      else (let m = n - 0x10000;
                s1 = 0xD800 OR (drop_bit 10 m AND 0x3FF);
                s2 = 0xDC00 OR (m AND 0x3FF)
            in CHR 0x5C # CHR ''u'' # format_04x s1 @ CHR 0x5C # CHR ''u'' # format_04x s2))"

definition encode_basestring_ascii :: "pystr \<Rightarrow> string" where
  "encode_basestring_ascii s = CHR 0x22 # concat (map escape_char s) @ [CHR 0x22]"

fun join :: "string \<Rightarrow> string list \<Rightarrow> string" where
  "join sep [] = []"
| "join sep [x] = x"
| "join sep (x # y # ys) = x @ sep @ join sep (y # ys)"

definition dumps_list :: "pystr list \<Rightarrow> string" where
  "dumps_list xs = ''['' @ join '', '' (map encode_basestring_ascii xs) @ '']''"

definition dumps_item :: "pystr \<times> pystr list \<Rightarrow> string" where
  "dumps_item kv = encode_basestring_ascii (fst kv) @ '': '' @ dumps_list (snd kv)"

definition json_dumps :: "(pystr, pystr list) pydict \<Rightarrow> string" where
  "json_dumps d = ''{'' @ join '', '' (map dumps_item d) @ ''}''"

section \<open>\<open>morphy_to_json\<close>\<close>

text \<open>
  The dict comprehension inserts, for each item of \<open>result\<close> in iteration order, the key
  \<open>k if k is not None else 'null'\<close> with the value \<open>list(v)\<close> into a new dict.
\<close>

definition null_key :: "pystr option \<Rightarrow> pystr" where
  "null_key k = (case k of Some s \<Rightarrow> s | None \<Rightarrow> py_str ''null'')"

definition comprehension :: "lookup_result \<Rightarrow> (pystr, pystr list) pydict" where
  "comprehension result =
     foldl (\<lambda>d (k, v). dict_setitem d (null_key k) (py_list v)) [] (dict_items result)"

text \<open>
  \<open>morphy\<close> is a callable supplied by the caller. A call of it may raise (\<open>Inl\<close>) or
  return a mapping (\<open>Inr\<close>), and may read and change the world \<open>'w\<close> outside the function
  (the lexicon, caches, the objects the caller holds). \<open>morphy_to_json\<close> has no
  \<open>try\<close>: an exception of the call leaves the function at once.
\<close>

type_synonym ('w, 'e) lookup = "pystr \<Rightarrow> pystr option \<Rightarrow> 'w \<Rightarrow> ('e + lookup_result) \<times> 'w"

definition morphy_to_json ::
  "('w, 'e) lookup \<Rightarrow> pystr \<Rightarrow> pystr option \<Rightarrow> 'w \<Rightarrow> ('e + string) \<times> 'w" where
  "morphy_to_json morphy form pos w =
     (case morphy form pos w of
        (Inl exc, w') \<Rightarrow> (Inl exc, w')
      | (Inr result, w') \<Rightarrow> (Inr (json_dumps (comprehension result)), w'))"

text \<open>The call \<open>morphy_to_json(morphy, form)\<close>: the parameter \<open>pos\<close> takes its default.\<close>

definition morphy_to_json_default ::
  "('w, 'e) lookup \<Rightarrow> pystr \<Rightarrow> 'w \<Rightarrow> ('e + string) \<times> 'w" where
  "morphy_to_json_default morphy form w = morphy_to_json morphy form None w"

section \<open>Instruments of the verification\<close>

text \<open>
  The image the specification describes: entry by entry, the key with \<open>'null'\<close> in place of
  \<open>None\<close>, and the list of the value collection. It is compared with \<open>comprehension\<close>
  below.
\<close>

definition transformed_image :: "lookup_result \<Rightarrow> (pystr \<times> pystr list) list" where
  "transformed_image result = map (\<lambda>(k, v). (null_key k, py_list v)) result"

text \<open>Inserting a sequence of items into a dict, one \<open>d[k] = v\<close> after the other.\<close>

definition insert_all :: "('k, 'v) pydict \<Rightarrow> ('k \<times> 'v) list \<Rightarrow> ('k, 'v) pydict" where
  "insert_all d kvs = foldl (\<lambda>d (k, v). dict_setitem d k v) d kvs"

text \<open>
  A spy around a lookup: it behaves as the lookup does on the world and appends the
  arguments of every call to a log kept beside the world.
\<close>

definition logged ::
  "('w, 'e) lookup \<Rightarrow> ((pystr \<times> pystr option) list \<times> 'w, 'e) lookup" where
  "logged morphy form pos lw =
     (case morphy form pos (snd lw) of (r, w') \<Rightarrow> (r, (fst lw @ [(form, pos)], w')))"

section \<open>\<open>json.loads\<close> on the payload\<close>

text \<open>
  The standard library's decoder, as far as the payload needs it: \<open>scanstring\<close> is
  the decoder's scanner of strings in strict mode (an escape \<open>\uXXXX\<close> of a high surrogate that is followed
  by the escape of a low surrogate yields the one code point they encode), \<open>JSONArray\<close>
  and \<open>JSONObject\<close> are the loops of the same names, with white space skipped where the
  decoder skips it, and \<open>dict(pairs)\<close> builds the result. The decoder here reads an object
  whose values are arrays of strings; \<open>None\<close> stands for a \<open>JSONDecodeError\<close> and for
  a document of any other shape. Every function takes the text that is still to be read and
  returns what it has read with the rest of the text.
\<close>

definition is_ws :: "char \<Rightarrow> bool" where
  "is_ws c = (c = CHR '' '' \<or> c = CHR 0x09 \<or> c = CHR 0x0A \<or> c = CHR 0x0D)"

fun skip_ws :: "string \<Rightarrow> string" where
  "skip_ws [] = []"
| "skip_ws (c # cs) = (if is_ws c then skip_ws cs else c # cs)"

definition hexval :: "char \<Rightarrow> nat option" where
  "hexval c =
     (let n = of_char c in
      if 0x30 \<le> n \<and> n \<le> 0x39 then Some (n - 0x30)
      else if 0x41 \<le> n \<and> n \<le> 0x46 then Some (n - 0x37)
      else if 0x61 \<le> n \<and> n \<le> 0x66 then Some (n - 0x57)
      else None)"

fun decode_uXXXX :: "string \<Rightarrow> nat option" where
  "decode_uXXXX (a # b # c # d # _) =
     (case (hexval a, hexval b, hexval c, hexval d) of
        (Some x, Some y, Some z, Some w) \<Rightarrow> Some (((x * 16 + y) * 16 + z) * 16 + w)
      | _ \<Rightarrow> None)"
| "decode_uXXXX _ = None"

definition backslash :: "char \<Rightarrow> nat option" where
  "backslash c =
     (if c = CHR 0x22 then Some 0x22
      else if c = CHR 0x5C then Some 0x5C
      else if c = CHR ''/'' then Some 0x2F
      else if c = CHR ''b'' then Some 0x08
      else if c = CHR ''f'' then Some 0x0C
      else if c = CHR ''n'' then Some 0x0A
      else if c = CHR ''r'' then Some 0x0D
      else if c = CHR ''t'' then Some 0x09
      else None)"

definition is_high :: "nat \<Rightarrow> bool" where
  "is_high u = (0xD800 \<le> u \<and> u \<le> 0xDBFF)"

definition is_low :: "nat \<Rightarrow> bool" where
  "is_low u = (0xDC00 \<le> u \<and> u \<le> 0xDFFF)"

definition join_surrogates :: "nat \<Rightarrow> nat \<Rightarrow> nat" where
  "join_surrogates u u2 = 0x10000 + (push_bit 10 (u - 0xD800) OR (u2 - 0xDC00))"

definition append_char :: "nat \<Rightarrow> (pystr \<times> string) option \<Rightarrow> (pystr \<times> string) option" where
  "append_char c r = map_option (\<lambda>(s, rest). (c # s, rest)) r"

fun scanstring :: "string \<Rightarrow> (pystr \<times> string) option" where
  "scanstring [] = None"
| "scanstring (c # cs) =
     (if c = CHR 0x22 then Some ([], cs)
      else if c = CHR 0x5C then
        (case cs of
           [] \<Rightarrow> None
         | esc # cs' \<Rightarrow>
             if esc \<noteq> CHR ''u'' then
               (case backslash esc of
                  None \<Rightarrow> None
                | Some ch \<Rightarrow> append_char ch (scanstring cs'))
             else
               (case decode_uXXXX cs' of
                  None \<Rightarrow> None
                | Some uni \<Rightarrow>
                    if is_high uni \<and> take 2 (drop 4 cs') = [CHR 0x5C, CHR ''u''] then
                      (case decode_uXXXX (drop 6 cs') of
                         None \<Rightarrow> None
                       | Some uni2 \<Rightarrow>
                           if is_low uni2
                           then append_char (join_surrogates uni uni2) (scanstring (drop 10 cs'))
                           else append_char uni (scanstring (drop 4 cs')))
                    else append_char uni (scanstring (drop 4 cs'))))
      else if (of_char c :: nat) < 0x20 then None
      else append_char (of_char c) (scanstring cs))"


lemma length_skip_ws: "length (skip_ws s) \<le> length s"
  by (induction s) auto

lemma scanstring_shorter: "scanstring s = Some (x, r) \<Longrightarrow> length r < length s"
proof (induction s arbitrary: x r rule: scanstring.induct)
  case 1
  then show ?case by simp
next
  case (2 c cs)
  show ?case
    using "2.prems" "2.IH"
    by (fastforce simp: append_char_def split: if_splits list.splits option.splits)
qed

function array_items :: "string \<Rightarrow> (pystr list \<times> string) option" where
  "array_items s =
     (case s of
        [] \<Rightarrow> None
      | c # cs \<Rightarrow>
          if c \<noteq> CHR 0x22 then None
          else
            (case scanstring cs of
               None \<Rightarrow> None
             | Some (x, r) \<Rightarrow>
                 (case skip_ws r of
                    [] \<Rightarrow> None
                  | d # ds \<Rightarrow>
                      if d = CHR '']'' then Some ([x], ds)
                      else if d = CHR '','' then
                        map_option (\<lambda>(xs, r'). (x # xs, r')) (array_items (skip_ws ds))
                      else None)))"
  by pat_completeness auto

termination
proof (relation "measure length")
  show "wf (measure length)" by simp
next
  fix s :: string and c cs x2 x r d ds
  assume "s = c # cs" "scanstring cs = Some x2" "(x, r) = x2" "skip_ws r = d # ds"
  then have "length r < length cs" "length (d # ds) \<le> length r"
    using scanstring_shorter [of cs x r] length_skip_ws [of r] by auto
  with \<open>s = c # cs\<close> show "(skip_ws ds, s) \<in> measure length"
    using length_skip_ws [of ds] by simp
qed

definition JSONArray :: "string \<Rightarrow> (pystr list \<times> string) option" where
  "JSONArray s =
     (case skip_ws s of
        [] \<Rightarrow> None
      | c # cs \<Rightarrow> if c = CHR '']'' then Some ([], cs) else array_items (c # cs))"


declare array_items.simps [simp del]

lemma array_items_Nil: "array_items [] = None"
  by (simp add: array_items.simps)

lemma array_items_Cons:
  "array_items (c # cs) =
     (if c \<noteq> CHR 0x22 then None
      else
        (case scanstring cs of
           None \<Rightarrow> None
         | Some (x, r) \<Rightarrow>
             (case skip_ws r of
                [] \<Rightarrow> None
              | d # ds \<Rightarrow>
                  if d = CHR '']'' then Some ([x], ds)
                  else if d = CHR '','' then
                    map_option (\<lambda>(xs, r'). (x # xs, r')) (array_items (skip_ws ds))
                  else None)))"
  by (subst array_items.simps) simp

lemma array_items_shorter: "array_items s = Some (xs, r) \<Longrightarrow> length r < length s"
proof (induction s arbitrary: xs r rule: array_items.induct)
  case (1 s)
  from "1.prems" obtain c cs where s: "s = c # cs"
    by (cases s) (simp_all add: array_items_Nil)
  from "1.prems" s obtain x r1 where c: "c = CHR 0x22" and sc: "scanstring cs = Some (x, r1)"
    by (auto simp: array_items_Cons split: if_splits option.splits)
  from "1.prems" s c sc obtain d ds where ws: "skip_ws r1 = d # ds"
    by (auto simp: array_items_Cons split: list.splits)
  have r1: "length r1 < length cs" using sc by (rule scanstring_shorter)
  have ds: "length ds < length r1" using length_skip_ws [of r1] ws by simp
  show ?case
  proof (cases "d = CHR '']''")
    case True
    then have "r = ds" using "1.prems" by (simp add: s c sc ws array_items_Cons)
    then show ?thesis using s r1 ds by simp
  next
    case False
    then obtain xs' where d: "d = CHR '',''" and rec: "array_items (skip_ws ds) = Some (xs', r)"
      using "1.prems" by (auto simp: s c sc ws array_items_Cons split: if_splits)
    have "length r < length (skip_ws ds)"
      using "1.IH" [of c cs "(x, r1)" x r1 d ds xs' r] s c sc ws False d rec by simp
    then show ?thesis using s r1 ds length_skip_ws [of ds] by simp
  qed
qed

lemma JSONArray_shorter: "JSONArray s = Some (xs, r) \<Longrightarrow> length r < length s"
  using length_skip_ws [of s] array_items_shorter [of "skip_ws s" xs r]
  by (auto simp: JSONArray_def split: list.splits if_splits)

function object_pairs :: "string \<Rightarrow> ((pystr \<times> pystr list) list \<times> string) option" where
  "object_pairs s =
     (case scanstring s of
        None \<Rightarrow> None
      | Some (key, r) \<Rightarrow>
          (case skip_ws r of
             [] \<Rightarrow> None
           | c # cs \<Rightarrow>
               if c \<noteq> CHR '':'' then None
               else
                 (case skip_ws cs of
                    [] \<Rightarrow> None
                  | b # bs \<Rightarrow>
                      if b \<noteq> CHR ''['' then None
                      else
                        (case JSONArray bs of
                           None \<Rightarrow> None
                         | Some (val, r2) \<Rightarrow>
                             (case skip_ws r2 of
                                [] \<Rightarrow> None
                              | d # ds \<Rightarrow>
                                  if d = CHR ''}'' then Some ([(key, val)], ds)
                                  else if d = CHR '','' then
                                    (case skip_ws ds of
                                       [] \<Rightarrow> None
                                     | q # qs \<Rightarrow>
                                         if q \<noteq> CHR 0x22 then None
                                         else map_option (\<lambda>(ps, r'). ((key, val) # ps, r'))
                                                (object_pairs qs))
                                  else None)))))"
  by pat_completeness auto

termination
proof (relation "measure length")
  show "wf (measure length)" by simp
next
  fix s :: string and x2 key r c cs b bs x2a val r2 d ds q qs
  assume "scanstring s = Some x2" "(key, r) = x2" "skip_ws r = c # cs" "skip_ws cs = b # bs"
    "JSONArray bs = Some x2a" "(val, r2) = x2a" "skip_ws r2 = d # ds" "skip_ws ds = q # qs"
  then have "length r < length s" "length (c # cs) \<le> length r" "length (b # bs) \<le> length cs"
    "length r2 < length bs" "length (d # ds) \<le> length r2" "length (q # qs) \<le> length ds"
    using scanstring_shorter [of s key r] length_skip_ws [of r] length_skip_ws [of cs]
      JSONArray_shorter [of bs val r2] length_skip_ws [of r2] length_skip_ws [of ds]
    by auto
  then show "(qs, s) \<in> measure length" by simp
qed

declare object_pairs.simps [simp del]

definition JSONObject :: "string \<Rightarrow> ((pystr \<times> pystr list) list \<times> string) option" where
  "JSONObject s =
     (case skip_ws s of
        [] \<Rightarrow> None
      | c # cs \<Rightarrow>
          if c = CHR ''}'' then Some ([], cs)
          else if c = CHR 0x22 then object_pairs cs
          else None)"

definition py_dict :: "('k \<times> 'v) list \<Rightarrow> ('k, 'v) pydict" where
  "py_dict pairs = insert_all [] pairs"

definition json_loads :: "string \<Rightarrow> (pystr, pystr list) pydict option" where
  "json_loads s =
     (case skip_ws s of
        [] \<Rightarrow> None
      | c # cs \<Rightarrow>
          if c \<noteq> CHR ''{'' then None
          else
            (case JSONObject cs of
               None \<Rightarrow> None
             | Some (pairs, r) \<Rightarrow> if skip_ws r = [] then Some (py_dict pairs) else None))"

section \<open>Instruments for the decoder\<close>

text \<open>
  What \<open>scanstring\<close> makes of an encoded string: every high surrogate that is directly
  followed by a low surrogate is read back, with it, as the one code point the two encode.
\<close>

fun merge_surrogates :: "pystr \<Rightarrow> pystr" where
  "merge_surrogates [] = []"
| "merge_surrogates [c] = [c]"
| "merge_surrogates (c # d # s) =
     (if is_high c \<and> is_low d then join_surrogates c d # merge_surrogates s
      else c # merge_surrogates (d # s))"

fun has_surrogate_pair :: "pystr \<Rightarrow> bool" where
  "has_surrogate_pair [] = False"
| "has_surrogate_pair [c] = False"
| "has_surrogate_pair (c # d # s) = ((is_high c \<and> is_low d) \<or> has_surrogate_pair (d # s))"

text \<open>The code points that \<open>encode_basestring_ascii\<close> writes as a two-character escape.\<close>

definition short_escaped :: "nat \<Rightarrow> bool" where
  "short_escaped c = (c = 0x5C \<or> c = 0x22 \<or> c = 0x08 \<or> c = 0x0C \<or> c = 0x0A \<or> c = 0x0D \<or> c = 0x09)"

text \<open>What the decoder returns for the serialization of a list and of a sequence of items.\<close>

definition decoded_list :: "pystr list \<Rightarrow> pystr list" where
  "decoded_list xs = map merge_surrogates xs"

definition decoded_pairs :: "(pystr \<times> pystr list) list \<Rightarrow> (pystr \<times> pystr list) list" where
  "decoded_pairs d = map (\<lambda>(k, vs). (merge_surrogates k, decoded_list vs)) d"

text \<open>
  Every string is a Python \<open>str\<close> (all code points below \<open>0x110000\<close>), in a dict that is
  serialized and in a result of the lookup; no string of a result holds a high surrogate
  directly followed by a low surrogate; a result holds both the key \<open>None\<close> and the key
  \<open>'null'\<close>.
\<close>

definition valid_payload :: "(pystr \<times> pystr list) list \<Rightarrow> bool" where
  "valid_payload d = list_all (\<lambda>(k, vs). valid_str k \<and> list_all valid_str vs) d"

definition valid_result :: "lookup_result \<Rightarrow> bool" where
  "valid_result result =
     list_all (\<lambda>(k, v). (case k of None \<Rightarrow> True | Some s \<Rightarrow> valid_str s) \<and> list_all valid_str v)
       result"

definition pair_free :: "lookup_result \<Rightarrow> bool" where
  "pair_free result =
     list_all (\<lambda>(k, v). (case k of None \<Rightarrow> True | Some s \<Rightarrow> \<not> has_surrogate_pair s)
                 \<and> list_all (\<lambda>x. \<not> has_surrogate_pair x) v) result"

definition null_collision :: "lookup_result \<Rightarrow> bool" where
  "null_collision result =
     (None \<in> fst ` set result \<and> Some (py_str ''null'') \<in> fst ` set result)"

text \<open>A lookup that returns a given mapping and leaves the world alone, and three results.\<close>

definition returning :: "lookup_result \<Rightarrow> (unit, unit) lookup" where
  "returning result form pos w = (Inr result, w)"

definition running_result :: lookup_result where
  "running_result = [(None, [py_str ''run'']), (Some (py_str ''v''), [py_str ''run''])]"

definition collision_result :: lookup_result where
  "collision_result = [(None, [py_str ''a'']), (Some (py_str ''null''), [py_str ''b''])]"

definition surrogate_result :: lookup_result where
  "surrogate_result = [(Some (py_str ''v''), [[0xD83D, 0xDE00]])]"

text \<open>
  The four conditions under which the text decodes to the transformed image of a result.
\<close>

definition wf_result :: "lookup_result \<Rightarrow> bool" where
  "wf_result result =
     (is_dict result \<and> valid_result result \<and> \<not> null_collision result \<and> pair_free result)"



section \<open>\<open>morphy_to_json\<close> on a store of objects\<close>

text \<open>
  The model above passes Python values by value. To state what an invocation leaves
  untouched, the same two lines are read once more over a store of objects: an object lives at
  an address, a dict holds the addresses of its values, the lookup returns the address of its
  mapping (an object that it may share with a cache or with the caller) and can read and
  change every object of the store. An allocation appends to the store and nothing is freed.
  \<open>comprehension_heap\<close> is the dict comprehension on the new dict at \<open>d\<close>: for each item of
  \<open>result.items()\<close> a new list \<open>list(v)\<close> and one \<open>__setitem__\<close> on the new dict, whose keys
  are strings and are held as \<open>Some s\<close>. \<open>json.dumps\<close> then reads the new dict
  (\<open>read_dict\<close>). \<open>AttributeError\<close> is raised by \<open>result.items()\<close> when the object
  returned is a collection and not a dict. A value that is not a collection of strings, and
  an address without an object, are outside what a lookup returns; the model stops there with
  \<open>Unmodelled\<close>.
\<close>

type_synonym addr = nat

datatype pyobj = PyDict "(pystr option \<times> addr) list" | PyColl "pystr list"

type_synonym heap = "pyobj list"

definition deref :: "heap \<Rightarrow> addr \<Rightarrow> pyobj option" where
  "deref h a = (if a < length h then Some (h ! a) else None)"

definition alloc :: "heap \<Rightarrow> pyobj \<Rightarrow> addr \<times> heap" where
  "alloc h obj = (length h, h @ [obj])"

definition assign :: "heap \<Rightarrow> addr \<Rightarrow> pyobj \<Rightarrow> heap" where
  "assign h a obj = h[a := obj]"

datatype 'e raised = Raised 'e | AttributeError | Unmodelled

type_synonym 'e heap_lookup = "pystr \<Rightarrow> pystr option \<Rightarrow> heap \<Rightarrow> ('e + addr) \<times> heap"

fun comprehension_heap :: "addr \<Rightarrow> (pystr option \<times> addr) list \<Rightarrow> heap \<Rightarrow> bool \<times> heap" where
  "comprehension_heap d [] h = (True, h)"
| "comprehension_heap d ((k, v) # items) h =
     (case deref h v of
        Some (PyColl members) \<Rightarrow>
          (case alloc h (PyColl (py_list members)) of
             (l, h') \<Rightarrow>
               (case deref h' d of
                  Some (PyDict entries) \<Rightarrow>
                    comprehension_heap d items
                      (assign h' d (PyDict (dict_setitem entries (Some (null_key k)) l)))
                | _ \<Rightarrow> (False, h')))
      | _ \<Rightarrow> (False, h))"

definition read_member :: "heap \<Rightarrow> pystr option \<times> addr \<Rightarrow> (pystr option \<times> pystr list) option" where
  "read_member h kv =
     (case deref h (snd kv) of Some (PyColl members) \<Rightarrow> Some (fst kv, members) | _ \<Rightarrow> None)"

definition read_dict :: "heap \<Rightarrow> addr \<Rightarrow> lookup_result option" where
  "read_dict h a =
     (case deref h a of
        Some (PyDict entries) \<Rightarrow> those (map (read_member h) entries)
      | _ \<Rightarrow> None)"

definition morphy_to_json_heap ::
  "'e heap_lookup \<Rightarrow> pystr \<Rightarrow> pystr option \<Rightarrow> heap \<Rightarrow> ('e raised + string) \<times> heap" where
  "morphy_to_json_heap morphy form pos h =
     (case morphy form pos h of
        (Inl exc, h1) \<Rightarrow> (Inl (Raised exc), h1)
      | (Inr result, h1) \<Rightarrow>
          (case deref h1 result of
             Some (PyDict items) \<Rightarrow>
               (case alloc h1 (PyDict []) of
                  (d, h2) \<Rightarrow>
                    (case comprehension_heap d items h2 of
                       (False, h3) \<Rightarrow> (Inl Unmodelled, h3)
                     | (True, h3) \<Rightarrow>
                         (case read_dict h3 d of
                            Some entries \<Rightarrow>
                              (Inr (json_dumps (map (\<lambda>(k, xs). (null_key k, xs)) entries)), h3)
                          | None \<Rightarrow> (Inl Unmodelled, h3))))
           | Some (PyColl members) \<Rightarrow> (Inl AttributeError, h1)
           | None \<Rightarrow> (Inl Unmodelled, h1)))"

text \<open>
  Instruments for the store. \<open>read_items\<close> reads the items of a dict as Python values, and
  \<open>outcome\<close> what a call of the lookup has raised or returned. \<open>reads_only n morphy\<close>
  describes a lookup whose state is the first \<open>n\<close> objects of the store (its lexicon): it
  leaves them as they are, and what it raises or returns (a dict of collections of strings)
  depends on them and on its arguments only. \<open>lexicon\<close> is such a lookup, over the list of
  words at address 0; \<open>toggling\<close> is a lookup that remembers in the list at address 0 that it
  has been called.
\<close>

definition is_coll :: "heap \<Rightarrow> addr \<Rightarrow> bool" where
  "is_coll h a = (case deref h a of Some (PyColl members) \<Rightarrow> True | _ \<Rightarrow> False)"

definition coll :: "heap \<Rightarrow> addr \<Rightarrow> pystr list" where
  "coll h a = (case deref h a of Some (PyColl members) \<Rightarrow> members | _ \<Rightarrow> [])"

definition read_items :: "heap \<Rightarrow> (pystr option \<times> addr) list \<Rightarrow> lookup_result" where
  "read_items h items = map (\<lambda>(k, a). (k, coll h a)) items"


definition outcome :: "('e + addr) \<times> heap \<Rightarrow> ('e + lookup_result) option" where
  "outcome r =
     (case r of
        (Inl exc, h) \<Rightarrow> Some (Inl exc)
      | (Inr result, h) \<Rightarrow> map_option Inr (read_dict h result))"

definition reads_only :: "nat \<Rightarrow> 'e heap_lookup \<Rightarrow> bool" where
  "reads_only n morphy =
     (\<forall>form pos h h'.
        take n (snd (morphy form pos h)) = take n h \<and>
        outcome (morphy form pos h) \<noteq> None \<and>
        (take n h' = take n h \<longrightarrow> outcome (morphy form pos h') = outcome (morphy form pos h)))"

definition lexicon :: "unit heap_lookup" where
  "lexicon form pos h =
     (case deref h 0 of
        Some (PyColl ws) \<Rightarrow>
          (case alloc h (PyColl (filter (\<lambda>w. w = form) ws)) of
             (c, h1) \<Rightarrow> (case alloc h1 (PyDict [(pos, c)]) of (r, h2) \<Rightarrow> (Inr r, h2)))
      | _ \<Rightarrow> (Inl (), h))"


definition toggling :: "unit heap_lookup" where
  "toggling form pos h =
     (case deref h 0 of
        Some (PyColl []) \<Rightarrow>
          (case alloc h (PyColl [form]) of
             (c, h1) \<Rightarrow>
               (case alloc h1 (PyDict [(pos, c)]) of
                  (r, h2) \<Rightarrow> (Inr r, assign h2 0 (PyColl [form]))))
      | _ \<Rightarrow> (case alloc h (PyDict []) of (r, h1) \<Rightarrow> (Inr r, h1)))"

section \<open>Dicts\<close>

lemma map_of_dict_setitem: "map_of (dict_setitem d k v) = (map_of d)(k \<mapsto> v)"
  by (induction d k v rule: dict_setitem.induct) (auto simp: fun_eq_iff)

lemma keys_dict_setitem:
  "map fst (dict_setitem d k v) = (if k \<in> fst ` set d then map fst d else map fst d @ [k])"
  by (induction d k v rule: dict_setitem.induct) auto

lemma dict_setitem_fresh: "k \<notin> fst ` set d \<Longrightarrow> dict_setitem d k v = d @ [(k, v)]"
  by (induction d k v rule: dict_setitem.induct) auto

lemma distinct_keys_dict_setitem:
  "distinct (map fst d) \<Longrightarrow> distinct (map fst (dict_setitem d k v))"
  by (simp add: keys_dict_setitem)

lemma insert_all_simps:
  "insert_all d [] = d" "insert_all d ((k, v) # kvs) = insert_all (dict_setitem d k v) kvs"
  by (simp_all add: insert_all_def)

lemma map_of_insert_all: "map_of (insert_all d kvs) = map_of d ++ map_of (rev kvs)"
  by (induction kvs arbitrary: d) (auto simp: insert_all_simps map_of_dict_setitem)

lemma remdups_drop_earlier: "k \<in> set ys \<Longrightarrow> remdups (xs @ k # ys) = remdups (xs @ ys)"
  by (induction xs) auto

lemma keys_insert_all:
  "distinct (map fst d) \<Longrightarrow>
   map fst (insert_all d kvs) = rev (remdups (rev (map fst d @ map fst kvs)))"
proof (induction kvs arbitrary: d)
  case Nil
  then have "rev (remdups (rev (map fst d))) = map fst d"
    by (metis distinct_rev rev_rev_ident distinct_remdups_id)
  then show ?case by (simp only: insert_all_simps list.map append_Nil2)
next
  case (Cons kv kvs)
  obtain k v where kv: "kv = (k, v)" by (cases kv)
  have "map fst (insert_all (dict_setitem d k v) kvs) =
          rev (remdups (rev (map fst (dict_setitem d k v) @ map fst kvs)))"
    using Cons.prems by (intro Cons.IH distinct_keys_dict_setitem)
  also have "remdups (rev (map fst (dict_setitem d k v) @ map fst kvs)) =
          remdups (rev (map fst d @ map fst (kv # kvs)))"
    using remdups_drop_earlier [of k "rev (map fst d)" "rev (map fst kvs)"]
    by (simp add: keys_dict_setitem kv)
  finally show ?case by (simp add: insert_all_simps kv)
qed

lemma insert_all_fresh:
  "distinct (map fst d @ map fst kvs) \<Longrightarrow> insert_all d kvs = d @ kvs"
proof (induction kvs arbitrary: d)
  case Nil
  then show ?case by (simp add: insert_all_simps)
next
  case (Cons kv kvs)
  obtain k v where kv: "kv = (k, v)" by (cases kv)
  have fresh: "dict_setitem d k v = d @ [(k, v)]"
    using Cons.prems by (intro dict_setitem_fresh) (auto simp: kv)
  have "insert_all (d @ [(k, v)]) kvs = (d @ [(k, v)]) @ kvs"
    using Cons.prems by (intro Cons.IH) (auto simp: kv)
  then show ?case by (simp add: insert_all_simps kv fresh)
qed

lemma comprehension_insert_all: "comprehension result = insert_all [] (transformed_image result)"
proof -
  have "foldl (\<lambda>d (k, v). dict_setitem d (null_key k) (py_list v)) d result =
        insert_all d (transformed_image result)" for d
    by (induction result arbitrary: d) (auto simp: insert_all_simps transformed_image_def)
  then show ?thesis by (simp add: comprehension_def dict_items_def)
qed

lemma keys_transformed_image: "map fst (transformed_image result) = map (null_key \<circ> fst) result"
  by (simp add: transformed_image_def case_prod_unfold comp_def)

section \<open>The result of \<open>morphy_to_json\<close>\<close>

lemma py_str_simps:
  "py_str [] = []" "py_str (c # cs) = of_char c # py_str cs"
  by (simp_all add: py_str_def)

lemma morphy_to_json_eq:
  "morphy_to_json morphy form pos w =
     (map_sum id (\<lambda>result. json_dumps (comprehension result)) (fst (morphy form pos w)),
      snd (morphy form pos w))"
  by (cases "morphy form pos w"; cases "fst (morphy form pos w)")
     (simp_all add: morphy_to_json_def)

text \<open>
  Claim C3. Called with the form \<open>running\<close> and no part of speech, with a lookup that
  returns \<open>{None: ["run"], "v": ["run"]}\<close>, the function returns the text
  \<open>{"null": ["run"], "v": ["run"]}\<close>.
\<close>

theorem morphy_to_json_running:
  assumes "morphy (py_str ''running'') None w =
             (Inr [(None, [py_str ''run'']), (Some (py_str ''v''), [py_str ''run''])], w')"
  shows \<open>morphy_to_json_default morphy (py_str ''running'') w =
           (Inr ''{"null": ["run"], "v": ["run"]}'', w')\<close>
  using assms
  by (simp add: morphy_to_json_default_def morphy_to_json_def comprehension_def dict_items_def
      json_dumps_def dumps_item_def dumps_list_def encode_basestring_ascii_def escape_char_def
      null_key_def py_list_def py_str_simps char_of_def bit_iff_odd)

theorem morphy_to_json_running_witness:
  \<open>(\<lambda>form pos w. (Inr [(None, [py_str ''run'']), (Some (py_str ''v''), [py_str ''run''])], w))
      (py_str ''running'') None ()
     = ((Inr [(None, [py_str ''run'']), (Some (py_str ''v''), [py_str ''run''])]
          :: unit + lookup_result), ())
   \<and> morphy_to_json_default
        (\<lambda>form pos w. ((Inr [(None, [py_str ''run'']), (Some (py_str ''v''), [py_str ''run''])]
          :: unit + lookup_result), w))
        (py_str ''running'') ()
     = (Inr ''{"null": ["run"], "v": ["run"]}'', ())\<close>
  using morphy_to_json_running
    [of "\<lambda>form pos w. ((Inr [(None, [py_str ''run'']), (Some (py_str ''v''), [py_str ''run''])]
          :: unit + lookup_result), w)" "()" "()"]
  by simp

text \<open>
  Claim C4. Whenever the lookup returns the empty mapping, \<open>morphy_to_json\<close> returns
  exactly the two-character text \<open>{}\<close>.
\<close>

theorem morphy_to_json_empty:
  assumes "morphy form pos w = (Inr [], w')"
  shows "morphy_to_json morphy form pos w = (Inr ''{}'', w') \<and> length ''{}'' = 2"
  using assms
  by (simp add: morphy_to_json_def comprehension_def dict_items_def json_dumps_def)

theorem morphy_to_json_empty_witness:
  "(\<lambda>form pos w. (Inr [], w)) (py_str ''zzz'') None () = ((Inr [] :: unit + lookup_result), ())
   \<and> morphy_to_json (\<lambda>form pos w. ((Inr [] :: unit + lookup_result), w)) (py_str ''zzz'') None ()
       = (Inr ''{}'', ())"
  using morphy_to_json_empty
    [of "\<lambda>form pos w. ((Inr [] :: unit + lookup_result), w)" "py_str ''zzz''" None "()" "()"]
  by simp

text \<open>
  Claim C6. An exception raised by the lookup leaves \<open>morphy_to_json\<close> as it is, with the
  world the lookup left; and \<open>morphy_to_json\<close> raises nothing else: when it raises, the
  lookup has raised that exception.
\<close>

theorem morphy_to_json_propagates:
  "(morphy form pos w = (Inl exc, w') \<longrightarrow> morphy_to_json morphy form pos w = (Inl exc, w'))
   \<and> (morphy_to_json morphy form pos w = (Inl exc, w') \<longrightarrow> morphy form pos w = (Inl exc, w'))"
  by (cases "morphy form pos w"; cases "fst (morphy form pos w)")
     (auto simp: morphy_to_json_def)

theorem morphy_to_json_propagates_witness:
  "(\<lambda>form pos w. (Inl ''KeyError'', w)) [114, 117, 110] (Some [120]) ()
     = ((Inl ''KeyError'' :: string + lookup_result), ())
   \<and> morphy_to_json (\<lambda>form pos w. ((Inl ''KeyError'' :: string + lookup_result), w))
        [114, 117, 110] (Some [120]) ()
     = (Inl ''KeyError'', ())"
  using morphy_to_json_propagates
    [of "\<lambda>form pos w. ((Inl ''KeyError'' :: string + lookup_result), w)"
        "[114, 117, 110]" "Some [120]" "()" "''KeyError''" "()"]
  by simp

section \<open>The collision of \<open>None\<close> and \<open>'null'\<close>\<close>






section \<open>Hexadecimal digits and surrogates\<close>

lemma of_char_char_of_small: "n < 256 \<Longrightarrow> of_char (char_of n) = (n::nat)"
  by (simp add: of_char_of)

lemma hexval_hexdigit: "d < 16 \<Longrightarrow> hexval (hexdigit d) = Some d"
  by (auto simp: hexval_def hexdigit_def of_char_of Let_def)

lemma hex_digits_value:
  fixes n :: nat
  assumes "n < 0x10000"
  shows "((n div 4096 mod 16 * 16 + n div 256 mod 16) * 16 + n div 16 mod 16) * 16 + n mod 16 = n"
proof -
  have a: "n div 4096 mod 16 = n div 4096"
    using assms by (simp add: less_mult_imp_div_less)
  have b: "n div 256 div 16 = n div 4096" "n div 16 div 16 = n div 256"
    by (simp_all add: div_mult2_eq [symmetric])
  have "n div 4096 * 16 + n div 256 mod 16 = n div 256"
    using mult_div_mod_eq [of 16 "n div 256"] by (simp add: b mult.commute)
  moreover have "n div 256 * 16 + n div 16 mod 16 = n div 16"
    using mult_div_mod_eq [of 16 "n div 16"] by (simp add: b mult.commute)
  moreover have "n div 16 * 16 + n mod 16 = n"
    using mult_div_mod_eq [of 16 n] by (simp add: mult.commute)
  ultimately show ?thesis by (simp add: a)
qed

lemma decode_format_04x: "n < 0x10000 \<Longrightarrow> decode_uXXXX (format_04x n @ rest) = Some n"
  using hex_digits_value [of n]
  by (simp add: format_04x_def hexval_hexdigit)

lemma drop_format_04x: "drop 4 (format_04x n @ rest) = rest"
  by (simp add: format_04x_def)

lemma push_bit_or_small:
  fixes a b :: nat
  assumes "b < 2 ^ n"
  shows "push_bit n a OR b = a * 2 ^ n + b"
proof -
  have b: "take_bit n b = b" using assms by (simp add: take_bit_nat_eq_self)
  have "push_bit n a AND take_bit n b = 0"
    by (auto simp: bit_eq_iff bit_simps)
  then have "push_bit n a + take_bit n b = push_bit n a OR take_bit n b"
    by (rule disjunctive_add_eq_or)
  then show ?thesis by (simp add: b push_bit_eq_mult)
qed

lemma and_0x3FF: "(m::nat) AND 0x3FF = m mod 1024"
proof -
  have "m AND mask 10 = m mod 2 ^ 10"
    by (simp add: take_bit_eq_mod flip: take_bit_eq_mask)
  moreover have "(mask 10 :: nat) = 0x3FF"
    by (simp add: mask_eq_exp_minus_1)
  ultimately show ?thesis by simp
qed

lemma high_part:
  fixes m :: nat
  shows "0xD800 OR (drop_bit 10 m AND 0x3FF) = 0xD800 + m div 1024 mod 1024"
proof -
  have "(0xD800::nat) = push_bit 10 54" by (simp add: push_bit_eq_mult)
  then show ?thesis
    using push_bit_or_small [of "m div 1024 mod 1024" 10 54]
    by (simp add: and_0x3FF drop_bit_eq_div)
qed

lemma low_part:
  fixes m :: nat
  shows "0xDC00 OR (m AND 0x3FF) = 0xDC00 + m mod 1024"
proof -
  have "(0xDC00::nat) = push_bit 10 55" by (simp add: push_bit_eq_mult)
  then show ?thesis
    using push_bit_or_small [of "m mod 1024" 10 55]
    by (simp add: and_0x3FF)
qed

lemma join_surrogates_parts:
  assumes "a < 1024" "b < 1024"
  shows "join_surrogates (0xD800 + a) (0xDC00 + b) = 0x10000 + a * 1024 + b"
  using push_bit_or_small [of b 10 a] assms by (simp add: join_surrogates_def)

section \<open>The escapes of \<open>encode_basestring_ascii\<close>, read by \<open>scanstring\<close>\<close>

lemma char_of_eq_iff: "n < 256 \<Longrightarrow> char_of n = c \<longleftrightarrow> n = (of_char c :: nat)"
  by (metis of_char_char_of_small char_of_char)

lemma escape_short:
  "escape_char 0x5C = [CHR 0x5C, CHR 0x5C]" "escape_char 0x22 = [CHR 0x5C, CHR 0x22]"
  "escape_char 0x08 = [CHR 0x5C, CHR ''b'']" "escape_char 0x0C = [CHR 0x5C, CHR ''f'']"
  "escape_char 0x0A = [CHR 0x5C, CHR ''n'']" "escape_char 0x0D = [CHR 0x5C, CHR ''r'']"
  "escape_char 0x09 = [CHR 0x5C, CHR ''t'']"
  by (simp_all add: escape_char_def)

lemma escape_printable:
  "\<not> short_escaped c \<Longrightarrow> 0x20 \<le> c \<Longrightarrow> c \<le> 0x7E \<Longrightarrow> escape_char c = [char_of c]"
  by (simp add: escape_char_def short_escaped_def)

lemma escape_bmp:
  "\<not> short_escaped c \<Longrightarrow> \<not> (0x20 \<le> c \<and> c \<le> 0x7E) \<Longrightarrow> c < 0x10000 \<Longrightarrow>
   escape_char c = CHR 0x5C # CHR ''u'' # format_04x c"
  by (simp add: escape_char_def short_escaped_def)

lemma escape_astral:
  "0x10000 \<le> c \<Longrightarrow>
   escape_char c = CHR 0x5C # CHR ''u'' # format_04x (0xD800 + (c - 0x10000) div 1024 mod 1024)
      @ CHR 0x5C # CHR ''u'' # format_04x (0xDC00 + (c - 0x10000) mod 1024)"
  by (simp add: escape_char_def Let_def high_part low_part)

lemma scan_short: "short_escaped c \<Longrightarrow> scanstring (escape_char c @ X) = append_char c (scanstring X)"
  unfolding short_escaped_def
  by (elim disjE) (simp_all add: escape_short backslash_def)

lemma scan_printable:
  assumes "\<not> short_escaped c" "0x20 \<le> c" "c \<le> 0x7E"
  shows "scanstring (escape_char c @ X) = append_char c (scanstring X)"
proof -
  have c: "c < 256" using assms by simp
  have "char_of c \<noteq> CHR 0x22" "char_of c \<noteq> CHR 0x5C"
    using assms(1) by (simp_all add: char_of_eq_iff [OF c] short_escaped_def)
  moreover have "of_char (char_of c) = c" using c by (rule of_char_char_of_small)
  ultimately show ?thesis
    using assms by (simp add: escape_printable)
qed

lemma scan_u:
  assumes "n < 0x10000"
  shows "scanstring (CHR 0x5C # CHR ''u'' # format_04x n @ X) =
     (if is_high n \<and> take 2 X = [CHR 0x5C, CHR ''u''] then
        (case decode_uXXXX (drop 2 X) of
           None \<Rightarrow> None
         | Some uni2 \<Rightarrow>
             if is_low uni2 then append_char (join_surrogates n uni2) (scanstring (drop 6 X))
             else append_char n (scanstring X))
      else append_char n (scanstring X))"
proof -
  obtain a b c d where f: "format_04x n = [a, b, c, d]"
    by (simp add: format_04x_def)
  have "decode_uXXXX (a # b # c # d # X) = Some n"
    using decode_format_04x [OF assms, of X] by (simp only: f append.simps)
  then show ?thesis
    unfolding f by (simp del: decode_uXXXX.simps cong: option.case_cong if_cong)
qed

lemma high_not_plain:
  assumes "is_high c"
  shows "\<not> short_escaped c" "\<not> (0x20 \<le> c \<and> c \<le> 0x7E)" "c < 0x10000"
  using assms by (simp_all add: is_high_def short_escaped_def)

lemma low_not_plain:
  assumes "is_low c"
  shows "\<not> short_escaped c" "\<not> (0x20 \<le> c \<and> c \<le> 0x7E)" "c < 0x10000"
  using assms by (simp_all add: is_low_def short_escaped_def)

lemma scan_high:
  assumes "is_high c"
  shows "scanstring (escape_char c @ X) =
     (if take 2 X = [CHR 0x5C, CHR ''u''] then
        (case decode_uXXXX (drop 2 X) of
           None \<Rightarrow> None
         | Some uni2 \<Rightarrow>
             if is_low uni2 then append_char (join_surrogates c uni2) (scanstring (drop 6 X))
             else append_char c (scanstring X))
      else append_char c (scanstring X))"
  using scan_u [OF high_not_plain(3) [OF assms], of X] assms
  by (simp add: escape_bmp [OF high_not_plain [OF assms]])

lemma scan_astral:
  assumes "0x10000 \<le> c" "c < 0x110000"
  shows "scanstring (escape_char c @ X) = append_char c (scanstring X)"
proof -
  define m where "m = c - 0x10000"
  define h where "h = 0xD800 + m div 1024 mod 1024"
  define l where "l = 0xDC00 + m mod 1024"
  have m: "m < 0x100000" "c = 0x10000 + m" using assms by (simp_all add: m_def)
  have hi: "m div 1024 mod 1024 = m div 1024" using m(1) by (simp add: less_mult_imp_div_less)
  have h: "is_high h" "h < 0x10000" by (simp_all add: h_def is_high_def)
  have l: "is_low l" "l < 0x10000" by (simp_all add: l_def is_low_def)
  have "join_surrogates h l = 0x10000 + m div 1024 * 1024 + m mod 1024"
    unfolding h_def l_def hi using m(1)
    by (intro join_surrogates_parts) (simp_all add: less_mult_imp_div_less)
  then have j: "join_surrogates h l = c"
    using m(2) by simp
  obtain a b e f where fl: "format_04x l = [a, b, e, f]"
    by (simp add: format_04x_def)
  have dl: "decode_uXXXX (a # b # e # f # X) = Some l"
    using decode_format_04x [OF l(2), of X] by (simp only: fl append.simps)
  have "escape_char c @ X = CHR 0x5C # CHR ''u'' # format_04x h @ (CHR 0x5C # CHR ''u'' # a # b # e # f # X)"
    using assms(1) by (simp add: escape_astral h_def l_def m_def fl [unfolded l_def m_def])
  then show ?thesis
    using scan_u [OF h(2), of "CHR 0x5C # CHR ''u'' # a # b # e # f # X"] h(1) l(1) dl j
    by (simp del: decode_uXXXX.simps)
qed

lemma scan_plain:
  assumes "c < 0x110000" "\<not> is_high c"
  shows "scanstring (escape_char c @ X) = append_char c (scanstring X)"
proof (cases "short_escaped c")
  case True
  then show ?thesis by (rule scan_short)
next
  case ns: False
  show ?thesis
  proof (cases "0x20 \<le> c \<and> c \<le> 0x7E")
    case True
    then show ?thesis using ns by (simp add: scan_printable)
  next
    case np: False
    show ?thesis
    proof (cases "c < 0x10000")
      case True
      then show ?thesis
        using scan_u [OF True, of X] assms(2) by (simp add: escape_bmp [OF ns np True])
    next
      case False
      then show ?thesis using assms(1) by (intro scan_astral) simp_all
    qed
  qed
qed

lemma next_low:
  assumes "is_low d"
  shows "take 2 (escape_char d @ Y) = [CHR 0x5C, CHR ''u'']"
    "decode_uXXXX (drop 2 (escape_char d @ Y)) = Some d"
    "drop 6 (escape_char d @ Y) = Y"
proof -
  obtain a b e f where f: "format_04x d = [a, b, e, f]"
    by (simp add: format_04x_def)
  have e: "escape_char d @ Y = CHR 0x5C # CHR ''u'' # a # b # e # f # Y"
    by (simp add: escape_bmp [OF low_not_plain [OF assms]] f)
  show "take 2 (escape_char d @ Y) = [CHR 0x5C, CHR ''u'']" "drop 6 (escape_char d @ Y) = Y"
    by (simp_all add: e)
  show "decode_uXXXX (drop 2 (escape_char d @ Y)) = Some d"
    using decode_format_04x [OF low_not_plain(3) [OF assms], of Y] by (simp add: e f)
qed

lemma next_not_low:
  assumes "d < 0x110000" "\<not> is_low d" "take 2 (escape_char d @ Y) = [CHR 0x5C, CHR ''u'']"
  shows "\<exists>u2. decode_uXXXX (drop 2 (escape_char d @ Y)) = Some u2 \<and> \<not> is_low u2"
proof (cases "short_escaped d")
  case True
  then have False using assms(3)
    unfolding short_escaped_def by (elim disjE) (simp_all add: escape_short)
  then show ?thesis ..
next
  case ns: False
  show ?thesis
  proof (cases "0x20 \<le> d \<and> d \<le> 0x7E")
    case True
    then have d: "d < 256" by simp
    have "char_of d \<noteq> CHR 0x5C" using ns by (simp add: char_of_eq_iff [OF d] short_escaped_def)
    then have False using assms(3) ns True by (simp add: escape_printable)
    then show ?thesis ..
  next
    case np: False
    show ?thesis
    proof (cases "d < 0x10000")
      case True
      have "decode_uXXXX (drop 2 (escape_char d @ Y)) = Some d"
        using decode_format_04x [OF True, of Y] by (simp add: escape_bmp [OF ns np True])
      then show ?thesis using assms(2) by blast
    next
      case False
      define h where "h = 0xD800 + (d - 0x10000) div 1024 mod 1024"
      have h: "h < 0x10000" "\<not> is_low h" by (simp_all add: h_def is_low_def)
      have "decode_uXXXX (drop 2 (escape_char d @ Y)) = Some h"
        using decode_format_04x [OF h(1)] False by (simp add: escape_astral h_def)
      then show ?thesis using h(2) by blast
    qed
  qed
qed

section \<open>Strings, arrays and objects read back\<close>

lemma valid_str_Cons: "valid_str (c # s) \<longleftrightarrow> c < 0x110000 \<and> valid_str s"
  by (simp add: valid_str_def)

lemma scanstring_quote: "scanstring (CHR 0x22 # rest) = Some ([], rest)"
  by simp

lemma scanstring_escaped:
  "valid_str s \<Longrightarrow>
   scanstring (concat (map escape_char s) @ CHR 0x22 # rest) = Some (merge_surrogates s, rest)"
proof (induction s rule: merge_surrogates.induct)
  case (3 c d s)
  let ?Y = "concat (map escape_char s) @ CHR 0x22 # rest"
  let ?X = "escape_char d @ ?Y"
  have v: "c < 0x110000" "d < 0x110000" "valid_str s" "valid_str (d # s)"
    using "3.prems" by (simp_all add: valid_str_Cons)
  have X: "concat (map escape_char (c # d # s)) @ CHR 0x22 # rest = escape_char c @ ?X"
    by simp
  show ?case
  proof (cases "is_high c \<and> is_low d")
    case True
    then have "scanstring ?Y = Some (merge_surrogates s, rest)"
      using "3.IH"(1) v(3) by simp
    then have "scanstring (escape_char c @ ?X) = Some (join_surrogates c d # merge_surrogates s, rest)"
      using True next_low [of d ?Y]
      by (simp add: scan_high append_char_def del: scanstring.simps decode_uXXXX.simps)
    then show ?thesis using True by simp
  next
    case False
    then have IH: "scanstring ?X = Some (merge_surrogates (d # s), rest)"
      using "3.IH"(2) v(4) by simp
    have "scanstring (escape_char c @ ?X) = append_char c (scanstring ?X)"
    proof (cases "is_high c")
      case True
      then have nl: "\<not> is_low d" using False by simp
      show ?thesis
      proof (cases "take 2 ?X = [CHR 0x5C, CHR ''u'']")
        case t: True
        obtain u2 where "decode_uXXXX (drop 2 ?X) = Some u2" "\<not> is_low u2"
          using next_not_low [OF v(2) nl t] by blast
        then show ?thesis
          using t by (simp add: scan_high [OF True] del: scanstring.simps decode_uXXXX.simps)
      next
        case False
        then show ?thesis
          by (simp add: scan_high [OF True] del: scanstring.simps decode_uXXXX.simps)
      qed
    next
      case False
      then show ?thesis using v(1) by (intro scan_plain)
    qed
    then have "scanstring (escape_char c @ ?X) = Some (c # merge_surrogates (d # s), rest)"
      by (simp add: IH append_char_def)
    then show ?thesis using False by auto
  qed
next
  case 1
  show ?case by simp
next
  case (2 c)
  have c: "c < 0x110000" using "2.prems" by (simp add: valid_str_Cons)
  have "scanstring (escape_char c @ CHR 0x22 # rest) = append_char c (scanstring (CHR 0x22 # rest))"
  proof (cases "is_high c")
    case True
    then show ?thesis
      by (simp add: scan_high del: scanstring.simps decode_uXXXX.simps)
  next
    case False
    then show ?thesis using c by (intro scan_plain)
  qed
  then show ?case by (simp add: append_char_def)
qed

lemma merge_no_pair: "\<not> has_surrogate_pair s \<Longrightarrow> merge_surrogates s = s"
  by (induction s rule: merge_surrogates.induct) auto

lemma scan_encoded:
  "valid_str s \<Longrightarrow>
   encode_basestring_ascii s @ rest = CHR 0x22 # concat (map escape_char s) @ CHR 0x22 # rest
   \<and> scanstring (concat (map escape_char s) @ CHR 0x22 # rest) = Some (merge_surrogates s, rest)"
  by (simp add: encode_basestring_ascii_def scanstring_escaped del: scanstring.simps)

lemma skip_ws_not_ws: "\<not> is_ws c \<Longrightarrow> skip_ws (c # cs) = c # cs"
  by simp

lemma ws_chars:
  "\<not> is_ws (CHR 0x22)" "\<not> is_ws (CHR '']'')" "\<not> is_ws (CHR '','')" "\<not> is_ws (CHR '':'')"
  "\<not> is_ws (CHR ''['')" "\<not> is_ws (CHR ''}'')" "\<not> is_ws (CHR ''{'')" "is_ws (CHR '' '')"
  by (simp_all add: is_ws_def)

lemma array_items_encoded_one:
  assumes "valid_str x"
  shows "array_items (encode_basestring_ascii x @ CHR '']'' # rest) = Some ([merge_surrogates x], rest)"
  using scan_encoded [OF assms, of "CHR '']'' # rest"]
  by (simp add: array_items_Cons ws_chars del: scanstring.simps)

lemma array_items_encoded_more:
  assumes "valid_str x"
  shows "array_items (encode_basestring_ascii x @ '', '' @ CHR 0x22 # Z) =
           map_option (\<lambda>(xs, r'). (merge_surrogates x # xs, r')) (array_items (CHR 0x22 # Z))"
  using scan_encoded [OF assms, of "'', '' @ CHR 0x22 # Z"]
  by (simp add: array_items_Cons [of _ "concat _ @ _"] ws_chars del: scanstring.simps)

lemma encode_head: "\<exists>t. encode_basestring_ascii x @ rest = CHR 0x22 # t"
  by (simp add: encode_basestring_ascii_def)

lemma join_encode_head:
  "xs \<noteq> [] \<Longrightarrow> \<exists>t. join sep (map encode_basestring_ascii xs) @ rest = CHR 0x22 # t"
  by (induction sep "map encode_basestring_ascii xs" arbitrary: xs rule: join.induct)
     (auto simp: encode_basestring_ascii_def)

lemma array_items_join:
  "xs \<noteq> [] \<Longrightarrow> list_all valid_str xs \<Longrightarrow>
   array_items (join '', '' (map encode_basestring_ascii xs) @ CHR '']'' # rest)
     = Some (decoded_list xs, rest)"
proof (induction xs)
  case Nil
  then show ?case by simp
next
  case (Cons x xs)
  have x: "valid_str x" using Cons.prems(2) by simp
  show ?case
  proof (cases xs)
    case Nil
    then show ?thesis using array_items_encoded_one [OF x, of rest] by (simp add: decoded_list_def)
  next
    case (Cons y ys)
    then have ne: "xs \<noteq> []" by simp
    obtain t where t: "join '', '' (map encode_basestring_ascii xs) @ CHR '']'' # rest = CHR 0x22 # t"
      using join_encode_head [OF ne] by blast
    have IH: "array_items (CHR 0x22 # t) = Some (decoded_list xs, rest)"
      using Cons.IH [OF ne] Cons.prems(2) t by simp
    have "join '', '' (map encode_basestring_ascii (x # xs)) @ CHR '']'' # rest
          = encode_basestring_ascii x @ '', '' @ CHR 0x22 # t"
      using t Cons by simp
    then show ?thesis
      using array_items_encoded_more [OF x, of t] IH by (simp add: decoded_list_def)
  qed
qed

lemma JSONArray_dumps_list:
  assumes "list_all valid_str xs"
  shows "\<exists>body. dumps_list xs @ rest = CHR ''['' # body \<and> JSONArray body = Some (decoded_list xs, rest)"
proof (cases xs)
  case Nil
  then show ?thesis by (simp add: dumps_list_def JSONArray_def ws_chars decoded_list_def)
next
  case (Cons y ys)
  then have ne: "xs \<noteq> []" by simp
  obtain t where t: "join '', '' (map encode_basestring_ascii xs) @ CHR '']'' # rest = CHR 0x22 # t"
    using join_encode_head [OF ne] by blast
  have "array_items (CHR 0x22 # t) = Some (decoded_list xs, rest)"
    using array_items_join [OF ne assms, of rest] t by simp
  then have "JSONArray (CHR 0x22 # t) = Some (decoded_list xs, rest)"
    by (simp add: JSONArray_def ws_chars)
  moreover have "dumps_list xs @ rest = CHR ''['' # CHR 0x22 # t"
    using t by (simp add: dumps_list_def)
  ultimately show ?thesis by blast
qed

lemma object_pairs_item:
  assumes "valid_str k" "list_all valid_str vs"
  shows "\<exists>body. dumps_item (k, vs) @ R = CHR 0x22 # body \<and>
     object_pairs body =
       (case skip_ws R of
          [] \<Rightarrow> None
        | d # ds \<Rightarrow>
            if d = CHR ''}'' then Some ([(merge_surrogates k, decoded_list vs)], ds)
            else if d = CHR '','' then
              (case skip_ws ds of
                 [] \<Rightarrow> None
               | q # qs \<Rightarrow>
                   if q \<noteq> CHR 0x22 then None
                   else map_option (\<lambda>(ps, r'). ((merge_surrogates k, decoded_list vs) # ps, r'))
                          (object_pairs qs))
            else None)"
proof -
  obtain arr where arr: "dumps_list vs @ R = CHR ''['' # arr"
    and A: "JSONArray arr = Some (decoded_list vs, R)"
    using JSONArray_dumps_list [OF assms(2), of R] by blast
  let ?rest = "CHR '':'' # CHR '' '' # CHR ''['' # arr"
  let ?body = "concat (map escape_char k) @ CHR 0x22 # ?rest"
  have S: "scanstring ?body = Some (merge_surrogates k, ?rest)"
    using scan_encoded [OF assms(1), of ?rest] by simp
  have "dumps_item (k, vs) @ R = CHR 0x22 # ?body"
    using arr by (simp add: dumps_item_def encode_basestring_ascii_def)
  moreover have "object_pairs ?body =
       (case skip_ws R of
          [] \<Rightarrow> None
        | d # ds \<Rightarrow>
            if d = CHR ''}'' then Some ([(merge_surrogates k, decoded_list vs)], ds)
            else if d = CHR '','' then
              (case skip_ws ds of
                 [] \<Rightarrow> None
               | q # qs \<Rightarrow>
                   if q \<noteq> CHR 0x22 then None
                   else map_option (\<lambda>(ps, r'). ((merge_surrogates k, decoded_list vs) # ps, r'))
                          (object_pairs qs))
            else None)"
    by (subst object_pairs.simps) (simp add: S A ws_chars del: scanstring.simps)
  ultimately show ?thesis by blast
qed

lemma dumps_item_head: "\<exists>t. dumps_item kv @ rest = CHR 0x22 # t"
  by (simp add: dumps_item_def encode_basestring_ascii_def)

lemma join_dumps_item_head:
  "d \<noteq> [] \<Longrightarrow> \<exists>t. join sep (map dumps_item d) @ rest = CHR 0x22 # t"
  by (induction sep "map dumps_item d" arbitrary: d rule: join.induct)
     (auto simp: dumps_item_def encode_basestring_ascii_def)

lemma object_pairs_join:
  "d \<noteq> [] \<Longrightarrow> valid_payload d \<Longrightarrow>
   \<exists>body. join '', '' (map dumps_item d) @ CHR ''}'' # rest = CHR 0x22 # body
     \<and> object_pairs body = Some (decoded_pairs d, rest)"
proof (induction d)
  case Nil
  then show ?case by simp
next
  case (Cons kv d)
  obtain k vs where kv: "kv = (k, vs)" by (cases kv)
  have v: "valid_str k" "list_all valid_str vs" "valid_payload d"
    using Cons.prems(2) by (simp_all add: valid_payload_def kv)
  show ?case
  proof (cases d)
    case Nil
    obtain body where "dumps_item (k, vs) @ CHR ''}'' # rest = CHR 0x22 # body"
      and "object_pairs body = Some ([(merge_surrogates k, decoded_list vs)], rest)"
      using object_pairs_item [OF v(1,2), of "CHR ''}'' # rest"] by (auto simp: ws_chars)
    then show ?thesis using Nil by (simp add: kv decoded_pairs_def)
  next
    case (Cons kv' d')
    then have ne: "d \<noteq> []" by simp
    obtain t where t: "join '', '' (map dumps_item d) @ CHR ''}'' # rest = CHR 0x22 # t"
      and IH: "object_pairs t = Some (decoded_pairs d, rest)"
      using Cons.IH [OF ne v(3)] by blast
    obtain body where b: "dumps_item (k, vs) @ CHR '','' # CHR '' '' # CHR 0x22 # t = CHR 0x22 # body"
      and "object_pairs body = Some ((merge_surrogates k, decoded_list vs) # decoded_pairs d, rest)"
      using object_pairs_item [OF v(1,2), of "CHR '','' # CHR '' '' # CHR 0x22 # t"] IH
      by (auto simp: ws_chars)
    moreover have "join '', '' (map dumps_item (kv # d)) @ CHR ''}'' # rest
        = dumps_item (k, vs) @ CHR '','' # CHR '' '' # CHR 0x22 # t"
      using t Cons by (simp add: kv)
    ultimately show ?thesis by (simp add: kv decoded_pairs_def)
  qed
qed

lemma json_loads_json_dumps:
  assumes "valid_payload d"
  shows "json_loads (json_dumps d) = Some (py_dict (decoded_pairs d))"
proof (cases d)
  case Nil
  then show ?thesis
    by (simp add: json_dumps_def json_loads_def JSONObject_def ws_chars decoded_pairs_def)
next
  case (Cons kv d')
  then have ne: "d \<noteq> []" by simp
  obtain body where b: "join '', '' (map dumps_item d) @ CHR ''}'' # [] = CHR 0x22 # body"
    and O: "object_pairs body = Some (decoded_pairs d, [])"
    using object_pairs_join [OF ne assms, of "[]"] by blast
  have "json_dumps d = CHR ''{'' # CHR 0x22 # body"
    using b by (simp add: json_dumps_def)
  then show ?thesis
    by (simp add: json_loads_def JSONObject_def ws_chars O)
qed

section \<open>The text returned by \<open>morphy_to_json\<close>, read back\<close>

lemma set_dict_setitem: "set (dict_setitem d k v) \<subseteq> insert (k, v) (set d)"
  by (induction d k v rule: dict_setitem.induct) auto

lemma set_insert_all: "set (insert_all d kvs) \<subseteq> set d \<union> set kvs"
proof (induction kvs arbitrary: d)
  case Nil
  then show ?case by (simp add: insert_all_simps)
next
  case (Cons kv kvs)
  obtain k v where kv: "kv = (k, v)" by (cases kv)
  show ?case
    using Cons.IH [of "dict_setitem d k v"] set_dict_setitem [of d k v]
    by (auto simp: insert_all_simps kv)
qed

lemma valid_null: "valid_str (py_str ''null'')"
  by (simp add: valid_str_def py_str_simps)

lemma valid_transformed_image: "valid_result result \<Longrightarrow> valid_payload (transformed_image result)"
  by (induction result)
     (auto simp: valid_result_def valid_payload_def transformed_image_def null_key_def py_list_def
        valid_null split: option.splits)

lemma valid_comprehension:
  assumes "valid_result result"
  shows "valid_payload (comprehension result)"
proof -
  have "set (comprehension result) \<subseteq> set (transformed_image result)"
    using set_insert_all [of "[]" "transformed_image result"] by (simp add: comprehension_insert_all)
  then show ?thesis
    using valid_transformed_image [OF assms] unfolding valid_payload_def list_all_iff by blast
qed

text \<open>
  Claim C7. When the lookup returns a mapping whose strings are Python strings, the text
  returned is a JSON document that the decoder accepts as an object whose keys are strings
  and whose values are arrays of strings: it decodes to the dict built from the
  comprehension's items as \<open>scanstring\<close> reads them.
\<close>

theorem morphy_to_json_valid_json:
  assumes "morphy form pos w = (Inr result, w')" and "valid_result result"
  shows "\<exists>text. morphy_to_json morphy form pos w = (Inr text, w')
     \<and> json_loads text = Some (py_dict (decoded_pairs (comprehension result)))"
  using assms json_loads_json_dumps [OF valid_comprehension [OF assms(2)]]
  by (simp add: morphy_to_json_def)

lemma no_pair_null: "\<not> has_surrogate_pair (py_str ''null'')"
  by (simp add: py_str_simps is_high_def)

lemma decoded_transformed_image:
  "pair_free result \<Longrightarrow> decoded_pairs (transformed_image result) = transformed_image result"
proof (induction result)
  case Nil
  then show ?case by (simp add: decoded_pairs_def transformed_image_def)
next
  case (Cons kv result)
  obtain k v where kv: "kv = (k, v)" by (cases kv)
  have "merge_surrogates (null_key k) = null_key k"
    using Cons.prems by (cases k) (simp_all add: pair_free_def kv null_key_def merge_no_pair no_pair_null)
  moreover have "decoded_list (py_list v) = py_list v"
    using Cons.prems
    by (simp add: pair_free_def kv decoded_list_def py_list_def list_all_iff merge_no_pair map_idI)
  moreover have "decoded_pairs (transformed_image result) = transformed_image result"
    using Cons by (simp add: pair_free_def)
  ultimately show ?case
    by (simp add: decoded_pairs_def transformed_image_def kv)
qed

lemma distinct_substituted_keys:
  assumes "is_dict result" "\<not> null_collision result"
  shows "distinct (map (null_key \<circ> fst) result)"
proof -
  have "inj_on null_key (fst ` set result)"
  proof (rule inj_onI)
    fix a b assume ab: "a \<in> fst ` set result" "b \<in> fst ` set result" "null_key a = null_key b"
    show "a = b"
    proof (cases a; cases b)
      fix s assume "a = None" "b = Some s"
      then show ?thesis using ab assms(2) by (simp add: null_collision_def null_key_def)
    next
      fix s assume "a = Some s" "b = None"
      then show ?thesis using ab assms(2) by (simp add: null_collision_def null_key_def)
    qed (use ab in \<open>simp_all add: null_key_def\<close>)
  qed
  then have "distinct (map null_key (map fst result))"
    using assms(1) distinct_map [of null_key "map fst result"] by (simp add: is_dict_def)
  then show ?thesis by simp
qed

text \<open>
  Claim C2, amended. When the result of the lookup is a dict of Python strings that does not
  hold both the key \<open>None\<close> and the key \<open>'null'\<close>, and no string of it holds a high
  surrogate directly followed by a low surrogate, decoding the text returned yields the
  transformed image of the result: the same keys in the same order, with \<open>'null'\<close> for
  \<open>None\<close>, and the same value lists.
\<close>

theorem morphy_to_json_roundtrip:
  assumes "morphy form pos w = (Inr result, w')"
    and "is_dict result" and "valid_result result"
    and "\<not> null_collision result" and "pair_free result"
  shows "\<exists>text. morphy_to_json morphy form pos w = (Inr text, w')
     \<and> json_loads text = Some (transformed_image result)"
proof -
  have d: "distinct (map (null_key \<circ> fst) result)"
    using assms(2,4) by (rule distinct_substituted_keys)
  then have c: "comprehension result = transformed_image result"
    using insert_all_fresh [of "[]" "transformed_image result"]
    by (simp add: comprehension_insert_all keys_transformed_image)
  have "py_dict (transformed_image result) = transformed_image result"
    using d insert_all_fresh [of "[]" "transformed_image result"]
    by (simp add: py_dict_def keys_transformed_image)
  then have "json_loads (json_dumps (comprehension result)) = Some (transformed_image result)"
    using json_loads_json_dumps [OF valid_comprehension [OF assms(3)]]
    by (simp add: c decoded_transformed_image [OF assms(5)])
  then show ?thesis using assms(1) by (simp add: morphy_to_json_def)
qed

lemmas dumps_eval =
  comprehension_def dict_items_def json_dumps_def dumps_item_def dumps_list_def
  encode_basestring_ascii_def escape_char_def null_key_def py_list_def py_str_simps
  char_of_def bit_iff_odd format_04x_def hexdigit_def

theorem morphy_to_json_valid_json_witness:
  \<open>returning running_result (py_str ''running'') None () = (Inr running_result, ())
   \<and> valid_result running_result
   \<and> json_loads ''{"null": ["run"], "v": ["run"]}''
      = Some [(py_str ''null'', [py_str ''run'']), (py_str ''v'', [py_str ''run''])]\<close>
proof -
  have r: "returning running_result (py_str ''running'') None () = (Inr running_result, ())"
    by (simp add: returning_def)
  have v: "valid_result running_result"
    by (simp add: valid_result_def running_result_def valid_str_def py_str_simps)
  have t: \<open>morphy_to_json (returning running_result) (py_str ''running'') None ()
      = (Inr ''{"null": ["run"], "v": ["run"]}'', ())\<close>
    by (simp add: morphy_to_json_def returning_def running_result_def dumps_eval)
  have d: "py_dict (decoded_pairs (comprehension running_result))
      = [(py_str ''null'', [py_str ''run'']), (py_str ''v'', [py_str ''run''])]"
    by (simp add: running_result_def comprehension_def dict_items_def null_key_def py_list_def
        py_str_simps decoded_pairs_def decoded_list_def py_dict_def insert_all_simps is_high_def)
  show ?thesis
    using morphy_to_json_valid_json
      [of "returning running_result" "py_str ''running''" None "()" running_result "()", OF r v] r v
    by (simp add: t d)
qed

theorem morphy_to_json_roundtrip_witness:
  \<open>returning running_result (py_str ''running'') None () = (Inr running_result, ())
   \<and> is_dict running_result \<and> valid_result running_result
   \<and> \<not> null_collision running_result \<and> pair_free running_result
   \<and> json_loads ''{"null": ["run"], "v": ["run"]}'' = Some (transformed_image running_result)\<close>
proof -
  have r: "returning running_result (py_str ''running'') None () = (Inr running_result, ())"
    by (simp add: returning_def)
  have i: "is_dict running_result"
    by (simp add: is_dict_def running_result_def)
  have v: "valid_result running_result"
    by (simp add: valid_result_def running_result_def valid_str_def py_str_simps)
  have n: "\<not> null_collision running_result"
    by (simp add: null_collision_def running_result_def py_str_simps)
  have p: "pair_free running_result"
    by (simp add: pair_free_def running_result_def py_str_simps is_high_def)
  have t: \<open>morphy_to_json (returning running_result) (py_str ''running'') None ()
      = (Inr ''{"null": ["run"], "v": ["run"]}'', ())\<close>
    by (simp add: morphy_to_json_def returning_def running_result_def dumps_eval)
  show ?thesis
    using morphy_to_json_roundtrip
      [of "returning running_result" "py_str ''running''" None "()" running_result "()",
       OF r i v n p] r i v n p
    by (simp add: t)
qed

text \<open>
  The round trip as the claim C2 states it fails on two results. With the keys \<open>None\<close>
  and \<open>'null'\<close> the text has one entry and the image two. With a string made of the high
  surrogate \<open>U+D83D\<close> and the low surrogate \<open>U+DE00\<close> the decoder returns the single code
  point \<open>U+1F600\<close>.
\<close>

theorem morphy_to_json_roundtrip_counterexample:
  \<open>is_dict collision_result \<and> valid_result collision_result
   \<and> morphy_to_json (returning collision_result) (py_str ''x'') None ()
       = (Inr ''{"null": ["b"]}'', ())
   \<and> json_loads ''{"null": ["b"]}'' = Some [(py_str ''null'', [py_str ''b''])]
   \<and> json_loads ''{"null": ["b"]}'' \<noteq> Some (transformed_image collision_result)
   \<and> is_dict surrogate_result \<and> valid_result surrogate_result
   \<and> morphy_to_json (returning surrogate_result) (py_str ''x'') None ()
       = (Inr (''{"v": ["'' @ CHR 0x5C # ''ud83d'' @ CHR 0x5C # ''ude00"]}''), ())
   \<and> json_loads (''{"v": ["'' @ CHR 0x5C # ''ud83d'' @ CHR 0x5C # ''ude00"]}'')
       = Some [(py_str ''v'', [[0x1F600]])]
   \<and> json_loads (''{"v": ["'' @ CHR 0x5C # ''ud83d'' @ CHR 0x5C # ''ude00"]}'')
       \<noteq> Some (transformed_image surrogate_result)\<close>
proof -
  have c1: "is_dict collision_result \<and> valid_result collision_result"
    by (simp add: is_dict_def valid_result_def collision_result_def valid_str_def py_str_simps)
  have c2: \<open>morphy_to_json (returning collision_result) (py_str ''x'') None ()
       = (Inr ''{"null": ["b"]}'', ())\<close>
    by (simp add: morphy_to_json_def returning_def collision_result_def dumps_eval)
  have c3: \<open>json_loads ''{"null": ["b"]}'' = Some [(py_str ''null'', [py_str ''b''])]\<close>
  proof -
    have "valid_payload [(py_str ''null'', [py_str ''b''])]"
      by (simp add: valid_payload_def valid_str_def py_str_simps)
    from json_loads_json_dumps [OF this] show ?thesis
      by (simp add: json_dumps_def dumps_item_def dumps_list_def encode_basestring_ascii_def
          escape_char_def py_str_simps char_of_def bit_iff_odd decoded_pairs_def decoded_list_def
          py_dict_def insert_all_simps is_high_def is_low_def)
  qed
  have c4: "Some [(py_str ''null'', [py_str ''b''])] \<noteq> Some (transformed_image collision_result)"
    by (simp add: transformed_image_def collision_result_def)
  have s1: "is_dict surrogate_result \<and> valid_result surrogate_result"
    by (simp add: is_dict_def valid_result_def surrogate_result_def valid_str_def py_str_simps)
  have s2: \<open>morphy_to_json (returning surrogate_result) (py_str ''x'') None ()
       = (Inr (''{"v": ["'' @ CHR 0x5C # ''ud83d'' @ CHR 0x5C # ''ude00"]}''), ())\<close>
    by (simp add: morphy_to_json_def returning_def surrogate_result_def dumps_eval)
  have s3: \<open>json_loads (''{"v": ["'' @ CHR 0x5C # ''ud83d'' @ CHR 0x5C # ''ude00"]}'')
       = Some [(py_str ''v'', [[0x1F600]])]\<close>
  proof -
    have "valid_payload [(py_str ''v'', [[0xD83D, 0xDE00]])]"
      by (simp add: valid_payload_def valid_str_def py_str_simps)
    from json_loads_json_dumps [OF this] show ?thesis
      by (simp add: json_dumps_def dumps_item_def dumps_list_def encode_basestring_ascii_def
          escape_char_def py_str_simps char_of_def bit_iff_odd format_04x_def hexdigit_def
          decoded_pairs_def decoded_list_def py_dict_def insert_all_simps
          is_high_def is_low_def join_surrogates_def)
  qed
  have s4: "Some [(py_str ''v'', [[0x1F600]])] \<noteq> Some (transformed_image surrogate_result)"
    by (simp add: transformed_image_def surrogate_result_def py_list_def)
  show ?thesis
    using c1 c2 c3 c4 s1 s2 s3 s4 by (simp only: simp_thms)
qed

section \<open>What the text says of the result\<close>


lemma py_dict_distinct: "distinct (map fst d) \<Longrightarrow> py_dict d = d"
  using insert_all_fresh [of "[]" d] by (simp add: py_dict_def)

lemma comprehension_keys:
  "map fst (comprehension result) = rev (remdups (rev (map (null_key \<circ> fst) result)))"
  using keys_insert_all [of "[]" "transformed_image result"]
  by (simp add: comprehension_insert_all keys_transformed_image)

lemma comprehension_map_of:
  "map_of (comprehension result) = map_of (rev (transformed_image result))"
  by (simp add: comprehension_insert_all map_of_insert_all)

lemma comprehension_image:
  assumes "is_dict result" "\<not> null_collision result"
  shows "comprehension result = transformed_image result"
  using distinct_substituted_keys [OF assms] insert_all_fresh [of "[]" "transformed_image result"]
  by (simp add: comprehension_insert_all keys_transformed_image)

lemma loads_dumps_comprehension:
  assumes "valid_result result"
  shows "json_loads (json_dumps (comprehension result))
           = Some (py_dict (decoded_pairs (comprehension result)))"
  using valid_comprehension [OF assms] by (rule json_loads_json_dumps)

lemma loads_dumps_image:
  assumes "wf_result result"
  shows "json_loads (json_dumps (comprehension result)) = Some (transformed_image result)"
proof -
  have a: "is_dict result" "valid_result result" "\<not> null_collision result" "pair_free result"
    using assms by (simp_all add: wf_result_def)
  have c: "comprehension result = transformed_image result"
    using a(1,3) by (rule comprehension_image)
  have "distinct (map fst (transformed_image result))"
    using distinct_substituted_keys [OF a(1,3)] by (simp add: keys_transformed_image)
  then have "py_dict (transformed_image result) = transformed_image result"
    by (rule py_dict_distinct)
  then show ?thesis
    using loads_dumps_comprehension [OF a(2)]
    by (simp add: c decoded_transformed_image [OF a(4)])
qed

text \<open>
  Claim C1, amended. When the result of the lookup is a dict that does not hold both the key
  \<open>None\<close> and the key \<open>'null'\<close>, the text returned is the serialization of its
  transformed image: entry by entry and in the order of the result, the key with \<open>'null'\<close>
  in place of \<open>None\<close> and any other key kept, and the value collection as the list of its
  members in iteration order. The dict built by the comprehension is that image, and the
  decoder reads the text back as the items of that image.
\<close>

theorem morphy_to_json_transforms:
  assumes "morphy form pos w = (Inr result, w')"
    and "is_dict result" and "\<not> null_collision result"
  shows "morphy_to_json morphy form pos w = (Inr (json_dumps (transformed_image result)), w')
    \<and> transformed_image result
        = map (\<lambda>(k, v). (case k of None \<Rightarrow> py_str ''null'' | Some s \<Rightarrow> s, v)) result
    \<and> comprehension result = transformed_image result
    \<and> (valid_result result \<longrightarrow>
         json_loads (json_dumps (transformed_image result))
           = Some (py_dict (decoded_pairs (transformed_image result))))"
proof -
  have c: "comprehension result = transformed_image result"
    using assms(2,3) by (rule comprehension_image)
  have "transformed_image result
        = map (\<lambda>(k, v). (case k of None \<Rightarrow> py_str ''null'' | Some s \<Rightarrow> s, v)) result"
    by (simp add: transformed_image_def null_key_def py_list_def)
  moreover have "json_loads (json_dumps (transformed_image result))
           = Some (py_dict (decoded_pairs (transformed_image result)))" if "valid_result result"
    using loads_dumps_comprehension [OF that] by (simp add: c)
  ultimately show ?thesis
    using assms(1) c by (simp add: morphy_to_json_def)
qed

theorem morphy_to_json_transforms_witness:
  \<open>returning running_result (py_str ''running'') None () = (Inr running_result, ())
   \<and> is_dict running_result \<and> \<not> null_collision running_result
   \<and> morphy_to_json (returning running_result) (py_str ''running'') None ()
       = (Inr (json_dumps (transformed_image running_result)), ())
   \<and> transformed_image running_result
       = [(py_str ''null'', [py_str ''run'']), (py_str ''v'', [py_str ''run''])]\<close>
proof -
  have r: "returning running_result (py_str ''running'') None () = (Inr running_result, ())"
    by (simp add: returning_def)
  have i: "is_dict running_result"
    by (simp add: is_dict_def running_result_def)
  have n: "\<not> null_collision running_result"
    by (simp add: null_collision_def running_result_def py_str_simps)
  have t: "transformed_image running_result
       = [(py_str ''null'', [py_str ''run'']), (py_str ''v'', [py_str ''run''])]"
    by (simp add: transformed_image_def running_result_def null_key_def py_list_def)
  show ?thesis
    using morphy_to_json_transforms
      [of "returning running_result" "py_str ''running''" None "()" running_result "()",
       OF r i n] r i n t
    by simp
qed

text \<open>
  Claim C1 as stated, for every mapping, fails on a result with the keys \<open>None\<close> and
  \<open>'null'\<close>: the transformed image has two entries and the text returned has one, the
  list of the key \<open>None\<close> is not in it.
\<close>

theorem morphy_to_json_transforms_counterexample:
  \<open>is_dict collision_result
   \<and> morphy_to_json (returning collision_result) (py_str ''x'') None ()
       = (Inr ''{"null": ["b"]}'', ())
   \<and> json_dumps (transformed_image collision_result) = ''{"null": ["a"], "null": ["b"]}''
   \<and> comprehension collision_result = [(py_str ''null'', [py_str ''b''])]
   \<and> transformed_image collision_result
       = [(py_str ''null'', [py_str ''a'']), (py_str ''null'', [py_str ''b''])]
   \<and> comprehension collision_result \<noteq> transformed_image collision_result\<close>
proof -
  have a: "is_dict collision_result"
    by (simp add: is_dict_def collision_result_def)
  have b: \<open>morphy_to_json (returning collision_result) (py_str ''x'') None ()
       = (Inr ''{"null": ["b"]}'', ())\<close>
    by (simp add: morphy_to_json_def returning_def collision_result_def dumps_eval)
  have t: "transformed_image collision_result
       = [(py_str ''null'', [py_str ''a'']), (py_str ''null'', [py_str ''b''])]"
    by (simp add: transformed_image_def collision_result_def null_key_def py_list_def)
  have c: "comprehension collision_result = [(py_str ''null'', [py_str ''b''])]"
    by (simp add: comprehension_def dict_items_def collision_result_def null_key_def py_list_def)
  have d: \<open>json_dumps (transformed_image collision_result) = ''{"null": ["a"], "null": ["b"]}''\<close>
    unfolding t by (simp add: dumps_eval)
  have e: "comprehension collision_result \<noteq> transformed_image collision_result"
    unfolding t c by simp
  show ?thesis
    using a b c d e t by (simp only: simp_thms)
qed







text \<open>
  Claim C8. Around any lookup, the spy records exactly one call during a call of
  \<open>morphy_to_json\<close>, with the form and the part of speech as they were given (\<open>None\<close> when
  the part of speech is omitted), and the world is the one that call left. An exception of
  that call is returned as it is. When that call returns a mapping, the text is the
  serialization of that mapping's items: its keys are the substituted keys of that result in
  first-occurrence order, a key holds the list of the last entry of that result mapped to
  it, the decoder reads the text back as these items, and on a well-formed result as the
  transformed image of that result.
\<close>

theorem morphy_to_json_delegates:
  "morphy_to_json (logged morphy) form pos (log, w) =
     (map_sum id (\<lambda>result. json_dumps (comprehension result)) (fst (morphy form pos w)),
      (log @ [(form, pos)], snd (morphy form pos w)))
   \<and> morphy_to_json_default (logged morphy) form (log, w) =
     (map_sum id (\<lambda>result. json_dumps (comprehension result)) (fst (morphy form None w)),
      (log @ [(form, None)], snd (morphy form None w)))
   \<and> (fst (morphy form pos w) = Inr result \<longrightarrow>
        (\<exists>text. fst (morphy_to_json (logged morphy) form pos (log, w)) = Inr text
          \<and> text = json_dumps (comprehension result)
          \<and> map fst (comprehension result) = rev (remdups (rev (map (null_key \<circ> fst) result)))
          \<and> map_of (comprehension result) = map_of (rev (transformed_image result))
          \<and> (valid_result result \<longrightarrow>
                json_loads text = Some (py_dict (decoded_pairs (comprehension result))))
          \<and> (wf_result result \<longrightarrow> json_loads text = Some (transformed_image result))))"
proof -
  have a: "morphy_to_json (logged morphy) form pos (log, w) =
     (map_sum id (\<lambda>result. json_dumps (comprehension result)) (fst (morphy form pos w)),
      (log @ [(form, pos)], snd (morphy form pos w)))" for pos
    by (simp add: morphy_to_json_eq logged_def case_prod_unfold)
  have "json_loads (json_dumps (comprehension result))
          = Some (py_dict (decoded_pairs (comprehension result)))" if "valid_result result"
    using that by (rule loads_dumps_comprehension)
  moreover have "json_loads (json_dumps (comprehension result)) = Some (transformed_image result)"
    if "wf_result result"
    using that by (rule loads_dumps_image)
  ultimately show ?thesis
    by (simp add: a morphy_to_json_default_def comprehension_keys comprehension_map_of)
qed

theorem morphy_to_json_delegates_witness:
  \<open>fst (returning running_result (py_str ''running'') None ()) = Inr running_result
   \<and> valid_result running_result \<and> wf_result running_result
   \<and> morphy_to_json (logged (returning running_result)) (py_str ''running'') None ([], ())
      = (Inr ''{"null": ["run"], "v": ["run"]}'', ([(py_str ''running'', None)], ()))
   \<and> json_loads ''{"null": ["run"], "v": ["run"]}'' = Some (transformed_image running_result)\<close>
proof -
  have r: "fst (returning running_result (py_str ''running'') None ()) = Inr running_result"
    "snd (returning running_result (py_str ''running'') None ()) = ()"
    by (simp_all add: returning_def)
  have wf: "wf_result running_result"
    by (simp add: wf_result_def is_dict_def valid_result_def null_collision_def pair_free_def
        running_result_def valid_str_def py_str_simps is_high_def)
  then have v: "valid_result running_result" by (simp add: wf_result_def)
  have t: \<open>json_dumps (comprehension running_result) = ''{"null": ["run"], "v": ["run"]}''\<close>
    by (simp add: running_result_def dumps_eval)
  note c = morphy_to_json_delegates
    [of "returning running_result" "py_str ''running''" None "[]" "()" running_result]
  have c1: \<open>morphy_to_json (logged (returning running_result)) (py_str ''running'') None ([], ())
      = (Inr ''{"null": ["run"], "v": ["run"]}'', ([(py_str ''running'', None)], ()))\<close>
    using c [THEN conjunct1] by (simp add: r t)
  have c2: \<open>json_loads ''{"null": ["run"], "v": ["run"]}'' = Some (transformed_image running_result)\<close>
    using c [THEN conjunct2, THEN conjunct2] r(1) wf by (simp add: t)
  show ?thesis
    using r(1) v wf c1 c2 by (simp only: simp_thms)
qed



section \<open>The objects that an invocation touches\<close>

lemma is_coll_iff: "is_coll h a = (a < length h \<and> (\<exists>members. h ! a = PyColl members))"
  by (auto simp: is_coll_def deref_def split: pyobj.splits)

lemma coll_eq: "a < length h \<Longrightarrow> h ! a = PyColl members \<Longrightarrow> coll h a = members"
  by (simp add: coll_def deref_def)

lemma those_read_member:
  "those (map (read_member h) items) = Some r \<longleftrightarrow>
     list_all (\<lambda>kv. is_coll h (snd kv)) items \<and> r = read_items h items"
proof (induction items arbitrary: r)
  case Nil
  show ?case by (auto simp: read_items_def)
next
  case (Cons kv items)
  obtain k a where kv: "kv = (k, a)" by (cases kv)
  show ?case
    using Cons.IH
    by (auto simp: kv read_items_def read_member_def is_coll_def coll_def
             split: option.splits pyobj.splits)
qed

lemma read_dict_iff:
  "read_dict h a = Some r \<longleftrightarrow>
     (\<exists>items. deref h a = Some (PyDict items) \<and>
        list_all (\<lambda>kv. is_coll h (snd kv)) items \<and> r = read_items h items)"
  by (auto simp: read_dict_def those_read_member split: option.splits pyobj.splits)

lemma map_dict_setitem:
  "map (\<lambda>(k, a). (k, f a)) (dict_setitem d k v) =
     dict_setitem (map (\<lambda>(k, a). (k, f a)) d) k (f v)"
  by (induction d k v rule: dict_setitem.induct) auto

lemma str_keys_dict_setitem:
  "None \<notin> fst ` set d \<Longrightarrow>
     map (\<lambda>(k, xs). (null_key k, xs)) (dict_setitem d (Some s) v) =
     dict_setitem (map (\<lambda>(k, xs). (null_key k, xs)) d) s v"
  by (induction d "Some s :: pystr option" v rule: dict_setitem.induct)
     (auto simp: null_key_def split: option.splits)

lemma comprehension_heap_frame:
  "comprehension_heap d items h = (ok, h') \<Longrightarrow>
     length h \<le> length h' \<and> (\<forall>a<length h. a \<noteq> d \<longrightarrow> h' ! a = h ! a)"
proof (induction items arbitrary: h)
  case Nil
  then show ?case by simp
next
  case (Cons kv items)
  obtain k v where kv: "kv = (k, v)" by (cases kv)
  show ?case
  proof (cases "deref h v")
    case None
    with Cons.prems show ?thesis by (simp add: kv)
  next
    case (Some obj)
    show ?thesis
    proof (cases obj)
      case (PyDict x)
      with Some Cons.prems show ?thesis by (simp add: kv)
    next
      case (PyColl members)
      let ?h1 = "h @ [PyColl (py_list members)]"
      show ?thesis
      proof (cases "deref ?h1 d")
        case None
        with Some PyColl Cons.prems show ?thesis
          by (auto simp: kv alloc_def nth_append)
      next
        case d: (Some dobj)
        show ?thesis
        proof (cases dobj)
          case (PyColl y)
          with d Some \<open>obj = PyColl members\<close> Cons.prems show ?thesis
            by (auto simp: kv alloc_def nth_append)
        next
          case (PyDict entries)
          let ?h2 = "assign ?h1 d (PyDict (dict_setitem entries (Some (null_key k)) (length h)))"
          from d Some \<open>obj = PyColl members\<close> PyDict Cons.prems
          have "comprehension_heap d items ?h2 = (ok, h')"
            by (simp add: kv alloc_def)
          from Cons.IH [OF this]
          have "length ?h2 \<le> length h'" and "\<forall>a<length ?h2. a \<noteq> d \<longrightarrow> h' ! a = ?h2 ! a"
            by simp_all
          then show ?thesis
            by (auto simp: assign_def nth_append)
        qed
      qed
    qed
  qed
qed

lemma is_coll_stable:
  assumes "is_coll h a" "d < length h" "h ! d = PyDict entries"
  shows "is_coll (assign (h @ [obj]) d obj') a" "coll (assign (h @ [obj]) d obj') a = coll h a"
    "a \<noteq> d"
proof -
  from assms show ad: "a \<noteq> d" by (auto simp: is_coll_iff)
  from assms ad show "is_coll (assign (h @ [obj]) d obj') a"
    by (auto simp: is_coll_iff assign_def nth_append)
  from assms ad show "coll (assign (h @ [obj]) d obj') a = coll h a"
    by (auto simp: is_coll_iff coll_def deref_def assign_def nth_append)
qed

lemma is_coll_append:
  "is_coll h a \<Longrightarrow> is_coll (h @ [obj]) a \<and> coll (h @ [obj]) a = coll h a"
  by (auto simp: is_coll_iff coll_def deref_def nth_append)

lemma read_items_cong:
  "(\<And>k a. (k, a) \<in> set items \<Longrightarrow> coll h' a = coll h a) \<Longrightarrow> read_items h' items = read_items h items"
  by (auto simp: read_items_def)

lemma comprehension_heap_refines:
  assumes "d < length h" "h ! d = PyDict entries"
    and "list_all (\<lambda>kv. is_coll h (snd kv)) entries"
    and "list_all (\<lambda>kv. is_coll h (snd kv)) items"
  shows "\<exists>h' entries'. comprehension_heap d items h = (True, h') \<and> d < length h' \<and>
           h' ! d = PyDict entries' \<and> list_all (\<lambda>kv. is_coll h' (snd kv)) entries' \<and>
           read_items h' entries' =
             foldl (\<lambda>D (k, v). dict_setitem D (Some (null_key k)) (py_list v))
               (read_items h entries) (read_items h items)"
  using assms
proof (induction items arbitrary: h entries)
  case Nil
  then show ?case by (simp add: read_items_def)
next
  case (Cons kv items)
  obtain k v where kv: "kv = (k, v)" by (cases kv)
  from Cons.prems(4) have v: "is_coll h v" and items: "list_all (\<lambda>kv. is_coll h (snd kv)) items"
    by (simp_all add: kv)
  from v obtain members where vl: "v < length h" and hv: "h ! v = PyColl members"
    by (auto simp: is_coll_iff)
  have cv: "coll h v = members" using vl hv by (rule coll_eq)
  let ?E = "dict_setitem entries (Some (null_key k)) (length h)"
  let ?h2 = "assign (h @ [PyColl (py_list members)]) d (PyDict ?E)"
  have step: "comprehension_heap d (kv # items) h = comprehension_heap d items ?h2"
    using vl hv Cons.prems(1,2) by (simp add: kv deref_def alloc_def nth_append)
  have stable: "\<And>a. is_coll h a \<Longrightarrow> is_coll ?h2 a \<and> coll ?h2 a = coll h a"
    using is_coll_stable [OF _ Cons.prems(1,2)] by blast
  have new: "is_coll ?h2 (length h)" "coll ?h2 (length h) = py_list members"
    using Cons.prems(1) by (auto simp: is_coll_iff coll_def deref_def assign_def nth_append)
  have d2: "d < length ?h2" "?h2 ! d = PyDict ?E"
    using Cons.prems(1) by (simp_all add: assign_def)
  have E2: "list_all (\<lambda>kv. is_coll ?h2 (snd kv)) ?E"
  proof -
    have "is_coll ?h2 (snd e)" if "e \<in> set ?E" for e
    proof -
      from that set_dict_setitem [of entries "Some (null_key k)" "length h"]
      have "e = (Some (null_key k), length h) \<or> e \<in> set entries" by auto
      then show ?thesis
        using new(1) stable Cons.prems(3) by (auto simp: list_all_iff)
    qed
    then show ?thesis by (simp add: list_all_iff)
  qed
  have I2: "list_all (\<lambda>kv. is_coll ?h2 (snd kv)) items"
    using items stable by (auto simp: list_all_iff)
  from Cons.IH [OF d2 E2 I2]
  obtain h' entries' where r: "comprehension_heap d items ?h2 = (True, h')" "d < length h'"
      "h' ! d = PyDict entries'" "list_all (\<lambda>kv. is_coll h' (snd kv)) entries'"
      "read_items h' entries' =
         foldl (\<lambda>D (k, v). dict_setitem D (Some (null_key k)) (py_list v))
           (read_items ?h2 ?E) (read_items ?h2 items)"
    by blast
  have ri: "read_items ?h2 items = read_items h items"
    using items stable by (intro read_items_cong) (auto simp: list_all_iff)
  have re: "read_items ?h2 entries = read_items h entries"
    using Cons.prems(3) stable by (intro read_items_cong) (auto simp: list_all_iff)
  have "read_items ?h2 ?E = dict_setitem (read_items ?h2 entries) (Some (null_key k)) (coll ?h2 (length h))"
    unfolding read_items_def by (rule map_dict_setitem)
  then have rE: "read_items ?h2 ?E = dict_setitem (read_items h entries) (Some (null_key k)) (py_list members)"
    by (simp only: re new(2))
  have "read_items h (kv # items) = (k, members) # read_items h items"
    by (simp add: read_items_def kv cv)
  then have "foldl (\<lambda>D (k, v). dict_setitem D (Some (null_key k)) (py_list v))
               (read_items h entries) (read_items h (kv # items)) =
             foldl (\<lambda>D (k, v). dict_setitem D (Some (null_key k)) (py_list v))
               (read_items ?h2 ?E) (read_items ?h2 items)"
    by (simp add: rE ri)
  with r step show ?case by metis
qed

lemma str_keys_foldl:
  "None \<notin> fst ` set D \<Longrightarrow>
     map (\<lambda>(k, xs). (null_key k, xs))
       (foldl (\<lambda>D (k, v). dict_setitem D (Some (null_key k)) (py_list v)) D result) =
     foldl (\<lambda>d (k, v). dict_setitem d (null_key k) (py_list v))
       (map (\<lambda>(k, xs). (null_key k, xs)) D) result"
proof (induction result arbitrary: D)
  case Nil
  show ?case by simp
next
  case (Cons kv result)
  obtain k v where kv: "kv = (k, v)" by (cases kv)
  have "None \<notin> fst ` set (dict_setitem D (Some (null_key k)) (py_list v))"
    using Cons.prems set_dict_setitem [of D "Some (null_key k)" "py_list v"] by force
  from Cons.IH [OF this] show ?case
    by (simp add: kv str_keys_dict_setitem [OF Cons.prems])
qed

lemma read_items_Nil: "read_items h [] = []"
  by (simp add: read_items_def)

lemma morphy_to_json_heap_refines:
  assumes "morphy form pos h = (Inr result, h1)" and "read_dict h1 result = Some r"
  shows "fst (morphy_to_json_heap morphy form pos h) = Inr (json_dumps (comprehension r))"
proof -
  from assms(2) obtain items where items: "deref h1 result = Some (PyDict items)"
      "list_all (\<lambda>kv. is_coll h1 (snd kv)) items" "r = read_items h1 items"
    by (auto simp: read_dict_iff)
  let ?h2 = "h1 @ [PyDict []]"
  have i2: "list_all (\<lambda>kv. is_coll ?h2 (snd kv)) items" "read_items ?h2 items = r"
    using items(2,3) is_coll_append [of h1 _ "PyDict []"]
    by (auto simp: list_all_iff read_items_def)
  have "length h1 < length ?h2" "?h2 ! length h1 = PyDict []"
       "list_all (\<lambda>kv. is_coll ?h2 (snd kv)) []"
    by simp_all
  from comprehension_heap_refines [OF this i2(1)]
  obtain h3 entries where r: "comprehension_heap (length h1) items ?h2 = (True, h3)"
      "length h1 < length h3" "h3 ! length h1 = PyDict entries"
      "list_all (\<lambda>kv. is_coll h3 (snd kv)) entries"
      "read_items h3 entries =
         foldl (\<lambda>D (k, v). dict_setitem D (Some (null_key k)) (py_list v)) [] r"
    unfolding i2(2) read_items_Nil by blast
  have rd: "read_dict h3 (length h1) = Some (read_items h3 entries)"
    using r(2,3,4) by (simp add: read_dict_iff deref_def)
  have "map (\<lambda>(k, xs). (null_key k, xs)) (read_items h3 entries) = comprehension r"
    unfolding r(5) comprehension_def dict_items_def
    using str_keys_foldl [of "[]" r] by simp
  then show ?thesis
    using assms(1) items(1) r(1) rd by (simp add: morphy_to_json_heap_def alloc_def)
qed

lemma morphy_to_json_heap_frame:
  assumes "morphy form pos h = (out, h1)"
  shows "take (length h1) (snd (morphy_to_json_heap morphy form pos h)) = h1"
proof (cases out)
  case (Inl exc)
  with assms show ?thesis by (simp add: morphy_to_json_heap_def)
next
  case (Inr result)
  show ?thesis
  proof (cases "deref h1 result")
    case None
    with assms Inr show ?thesis by (simp add: morphy_to_json_heap_def)
  next
    case (Some obj)
    show ?thesis
    proof (cases obj)
      case (PyColl x)
      with assms Inr Some show ?thesis by (simp add: morphy_to_json_heap_def)
    next
      case (PyDict items)
      obtain ok h3 where c: "comprehension_heap (length h1) items (h1 @ [PyDict []]) = (ok, h3)"
        by (cases "comprehension_heap (length h1) items (h1 @ [PyDict []])")
      from comprehension_heap_frame [OF c]
      have "length h1 < length h3" "\<forall>a<length h1. h3 ! a = h1 ! a"
        by (auto simp: nth_append)
      then have t: "take (length h1) h3 = h1"
        by (auto simp: list_eq_iff_nth_eq)
      have "snd (morphy_to_json_heap morphy form pos h) = h3"
        using assms Inr Some PyDict c
        by (cases ok) (auto simp: morphy_to_json_heap_def alloc_def split: option.splits)
      with t show ?thesis by simp
    qed
  qed
qed

lemma morphy_to_json_heap_outcome:
  assumes "outcome (morphy form pos h) = Some r"
  shows "fst (morphy_to_json_heap morphy form pos h) =
           map_sum Raised (\<lambda>result. json_dumps (comprehension result)) r"
proof -
  obtain out h1 where m: "morphy form pos h = (out, h1)" by (cases "morphy form pos h")
  show ?thesis
  proof (cases out)
    case (Inl exc)
    with m assms show ?thesis by (auto simp: outcome_def morphy_to_json_heap_def)
  next
    case (Inr result)
    with m assms obtain res where "read_dict h1 result = Some res" "r = Inr res"
      by (auto simp: outcome_def)
    with morphy_to_json_heap_refines [of morphy form pos h result h1 res] m Inr
    show ?thesis by simp
  qed
qed

lemma read_dict_extend:
  assumes "read_dict h a = Some r"
  shows "read_dict (h @ x) a = Some r"
proof -
  from assms obtain items where items: "deref h a = Some (PyDict items)"
      "list_all (\<lambda>kv. is_coll h (snd kv)) items" "r = read_items h items"
    by (auto simp: read_dict_iff)
  have c: "is_coll (h @ x) b \<and> coll (h @ x) b = coll h b" if "is_coll h b" for b
    using that by (auto simp: is_coll_iff coll_def deref_def nth_append)
  have "deref (h @ x) a = Some (PyDict items)"
    using items(1) by (auto simp: deref_def nth_append split: if_splits)
  moreover have "list_all (\<lambda>kv. is_coll (h @ x) (snd kv)) items"
    using items(2) c by (auto simp: list_all_iff)
  moreover have "read_items (h @ x) items = r"
    unfolding items(3) using items(2) c by (intro read_items_cong) (auto simp: list_all_iff)
  ultimately show ?thesis by (auto simp: read_dict_iff)
qed

lemma outcome_extend:
  assumes "outcome (out, h1) = Some r" "take (length h1) h3 = h1"
  shows "outcome (out, h3) = Some r"
proof -
  have h3: "h3 = h1 @ drop (length h1) h3"
    using assms(2) append_take_drop_id [of "length h1" h3] by simp
  show ?thesis
  proof (cases out)
    case (Inl exc)
    with assms(1) show ?thesis by (simp add: outcome_def)
  next
    case (Inr result)
    with assms(1) obtain res where "read_dict h1 result = Some res" "r = Inr res"
      by (auto simp: outcome_def)
    with read_dict_extend [of h1 result res "drop (length h1) h3"] h3 Inr
    show ?thesis by (simp add: outcome_def)
  qed
qed

lemma reads_onlyD1:
  "reads_only n morphy \<Longrightarrow> take n (snd (morphy form pos h)) = take n h"
  unfolding reads_only_def
  by (drule spec [where x = form], drule spec [where x = pos], drule spec [where x = h],
      drule spec [where x = h], erule conjE, assumption)

lemma reads_onlyD2:
  "reads_only n morphy \<Longrightarrow> \<exists>r. outcome (morphy form pos h) = Some r"
  unfolding reads_only_def
  by (drule spec [where x = form], drule spec [where x = pos], drule spec [where x = h],
      drule spec [where x = h], elim conjE, simp only: not_None_eq)

lemma reads_onlyD3:
  "reads_only n morphy \<Longrightarrow> take n h' = take n h \<Longrightarrow>
     outcome (morphy form pos h') = outcome (morphy form pos h)"
  unfolding reads_only_def
  by (drule spec [where x = form], drule spec [where x = pos], drule spec [where x = h],
      drule spec [where x = h'], elim conjE impE, assumption+)

lemma reads_only_after:
  assumes "reads_only n morphy" "n \<le> length h"
  shows "take n (snd (morphy_to_json_heap morphy form pos h)) = take n h"
proof -
  obtain out h1 where m: "morphy form pos h = (out, h1)" by (cases "morphy form pos h")
  let ?h3 = "snd (morphy_to_json_heap morphy form pos h)"
  have f: "take (length h1) ?h3 = h1" using m by (rule morphy_to_json_heap_frame)
  have t: "take n h1 = take n h"
    using reads_onlyD1 [OF assms(1), of form pos h] by (simp only: m snd_conv)
  have "length (take n h1) = length (take n h)" by (simp only: t)
  then have "min (length h1) n = min (length h) n" by (simp only: length_take)
  then have n: "n \<le> length h1" using assms(2) by arith
  have "take n (take (length h1) ?h3) = take n ?h3"
    using n by (simp only: take_take min.absorb1)
  then show ?thesis by (simp only: f t)
qed

lemma morphy_to_json_heap_independent:
  assumes "reads_only n morphyA" "reads_only n morphyB" "n \<le> length h"
  shows "fst (morphy_to_json_heap morphyB formB posB
                (snd (morphy_to_json_heap morphyA formA posA h))) =
         fst (morphy_to_json_heap morphyB formB posB h)"
proof -
  let ?h3 = "snd (morphy_to_json_heap morphyA formA posA h)"
  have "take n ?h3 = take n h" using assms(1,3) by (rule reads_only_after)
  then have o: "outcome (morphyB formB posB ?h3) = outcome (morphyB formB posB h)"
    by (rule reads_onlyD3 [OF assms(2)])
  from reads_onlyD2 [OF assms(2), of formB posB h]
  obtain r where r: "outcome (morphyB formB posB h) = Some r" ..
  have r3: "outcome (morphyB formB posB ?h3) = Some r" by (simp only: o r)
  show ?thesis
    by (simp only: morphy_to_json_heap_outcome [of morphyB formB posB h r, OF r]
          morphy_to_json_heap_outcome [of morphyB formB posB ?h3 r, OF r3])
qed

lemma lexicon_some:
  "deref h 0 = Some (PyColl ws) \<Longrightarrow>
     lexicon form pos h =
       (Inr (Suc (length h)),
        h @ [PyColl (filter (\<lambda>w. w = form) ws), PyDict [(pos, length h)]])"
  by (simp add: lexicon_def alloc_def)

lemma read_dict_fresh:
  "read_dict (h @ [PyColl members, PyDict [(pos, length h)]]) (Suc (length h)) =
     Some [(pos, members)]"
  by (simp add: read_dict_def read_member_def deref_def nth_append)

lemma lexicon_outcome:
  "outcome (lexicon form pos h) =
     (case deref h 0 of
        Some (PyColl ws) \<Rightarrow> Some (Inr [(pos, filter (\<lambda>w. w = form) ws)])
      | _ \<Rightarrow> Some (Inl ()))"
proof (cases "deref h 0")
  case None
  then show ?thesis by (simp add: outcome_def lexicon_def)
next
  case (Some obj)
  show ?thesis
  proof (cases obj)
    case (PyDict x)
    with Some show ?thesis by (simp add: outcome_def lexicon_def)
  next
    case (PyColl ws)
    with Some have "deref h 0 = Some (PyColl ws)" by simp
    then show ?thesis
      by (simp add: lexicon_some outcome_def read_dict_fresh)
  qed
qed

lemma deref_take: "take (Suc 0) h' = take (Suc 0) h \<Longrightarrow> deref h' 0 = deref h 0"
  by (cases h; cases h') (simp_all add: deref_def)

lemma lexicon_heap: "take (Suc 0) (snd (lexicon form pos h)) = take (Suc 0) h"
proof (cases "deref h 0")
  case None
  then show ?thesis by (simp add: lexicon_def)
next
  case (Some obj)
  show ?thesis
  proof (cases obj)
    case (PyDict x)
    with Some show ?thesis by (simp add: lexicon_def)
  next
    case (PyColl ws)
    with Some have d: "deref h 0 = Some (PyColl ws)" by simp
    then have "h \<noteq> []" by (auto simp: deref_def)
    then obtain a list where h: "h = a # list" by (cases h) simp_all
    have "snd (lexicon form pos h) =
            h @ [PyColl (filter (\<lambda>w. w = form) ws), PyDict [(pos, length h)]]"
      by (simp only: lexicon_some [OF d] snd_conv)
    then show ?thesis by (simp add: h)
  qed
qed

lemma lexicon_reads_only: "reads_only 1 lexicon"
proof -
  have "outcome (lexicon form pos h) \<noteq> None" for form pos h
    by (simp add: lexicon_outcome split: option.splits pyobj.splits)
  moreover have "outcome (lexicon form pos h') = outcome (lexicon form pos h)"
    if "take (Suc 0) h' = take (Suc 0) h" for form pos h h'
    by (simp only: lexicon_outcome deref_take [OF that])
  ultimately show ?thesis
    unfolding reads_only_def One_nat_def using lexicon_heap by blast
qed

text \<open>
  Claim C9, amended. \<open>morphy_to_json\<close> itself keeps no state and changes no object: every
  object that exists when the lookup returns is the same object with the same content when
  \<open>morphy_to_json\<close> returns (it only allocates the new dict and the new lists), so the
  mapping that the lookup returned reads as before, and the text is the serialization of the
  comprehension of that mapping. For lookups that only read their state (\<open>reads_only\<close>), the
  state of the lookup is unchanged by an invocation, and the result of an invocation is the
  same whether or not another invocation took place before it, in either order.
\<close>

theorem morphy_to_json_stateless:
  "take (length (snd (morphyA formA posA h)))
      (snd (morphy_to_json_heap morphyA formA posA h)) = snd (morphyA formA posA h)
   \<and> (\<forall>r. outcome (morphyA formA posA h) = Some r \<longrightarrow>
          outcome (fst (morphyA formA posA h), snd (morphy_to_json_heap morphyA formA posA h))
            = Some r
          \<and> fst (morphy_to_json_heap morphyA formA posA h)
            = map_sum Raised (\<lambda>result. json_dumps (comprehension result)) r)
   \<and> (reads_only n morphyA \<and> reads_only n morphyB \<and> n \<le> length h \<longrightarrow>
          take n (snd (morphy_to_json_heap morphyA formA posA h)) = take n h
          \<and> fst (morphy_to_json_heap morphyB formB posB
                   (snd (morphy_to_json_heap morphyA formA posA h)))
              = fst (morphy_to_json_heap morphyB formB posB h)
          \<and> fst (morphy_to_json_heap morphyA formA posA
                   (snd (morphy_to_json_heap morphyB formB posB h)))
              = fst (morphy_to_json_heap morphyA formA posA h))"
proof -
  obtain out h1 where m: "morphyA formA posA h = (out, h1)" by (cases "morphyA formA posA h")
  let ?h3 = "snd (morphy_to_json_heap morphyA formA posA h)"
  have f: "take (length h1) ?h3 = h1" using m by (rule morphy_to_json_heap_frame)
  have 1: "take (length (snd (morphyA formA posA h))) ?h3 = snd (morphyA formA posA h)"
    using f by (simp only: m snd_conv)
  have 2: "outcome (fst (morphyA formA posA h), ?h3) = Some r
           \<and> fst (morphy_to_json_heap morphyA formA posA h)
             = map_sum Raised (\<lambda>result. json_dumps (comprehension result)) r"
    if r: "outcome (morphyA formA posA h) = Some r" for r
  proof -
    have "outcome (out, h1) = Some r" using r by (simp only: m)
    from outcome_extend [OF this f] have "outcome (fst (morphyA formA posA h), ?h3) = Some r"
      by (simp only: m fst_conv)
    with morphy_to_json_heap_outcome [of morphyA formA posA h r, OF r] show ?thesis
      by (intro conjI)
  qed
  have 3: "take n ?h3 = take n h
          \<and> fst (morphy_to_json_heap morphyB formB posB ?h3)
              = fst (morphy_to_json_heap morphyB formB posB h)
          \<and> fst (morphy_to_json_heap morphyA formA posA
                   (snd (morphy_to_json_heap morphyB formB posB h)))
              = fst (morphy_to_json_heap morphyA formA posA h)"
    if a: "reads_only n morphyA" and b: "reads_only n morphyB" and l: "n \<le> length h"
  proof -
    have "take n ?h3 = take n h" using a l by (rule reads_only_after)
    moreover have "fst (morphy_to_json_heap morphyB formB posB ?h3)
                     = fst (morphy_to_json_heap morphyB formB posB h)"
      using a b l by (rule morphy_to_json_heap_independent)
    moreover have "fst (morphy_to_json_heap morphyA formA posA
                         (snd (morphy_to_json_heap morphyB formB posB h)))
                     = fst (morphy_to_json_heap morphyA formA posA h)"
      using b a l by (rule morphy_to_json_heap_independent)
    ultimately show ?thesis by (intro conjI)
  qed
  from 1 2 3 show ?thesis by (intro conjI allI impI; (elim conjE)?) blast+
qed

lemmas heap_eval =
  morphy_to_json_heap_def alloc_def deref_def assign_def read_dict_def read_member_def
  nth_append

text \<open>
  The claim holds at two invocations with the lookup \<open>lexicon\<close> over the words
  \<open>run\<close> and \<open>ran\<close>.
\<close>

theorem morphy_to_json_stateless_witness:
  \<open>reads_only 1 lexicon
   \<and> 1 \<le> length [PyColl [py_str ''run'', py_str ''ran'']]
   \<and> fst (morphy_to_json_heap lexicon (py_str ''ran'') (Some (py_str ''v''))
           (snd (morphy_to_json_heap lexicon (py_str ''run'') None
                  [PyColl [py_str ''run'', py_str ''ran'']])))
       = fst (morphy_to_json_heap lexicon (py_str ''ran'') (Some (py_str ''v''))
           [PyColl [py_str ''run'', py_str ''ran'']])
   \<and> fst (morphy_to_json_heap lexicon (py_str ''run'') None
           [PyColl [py_str ''run'', py_str ''ran'']]) = Inr ''{"null": ["run"]}''\<close>
proof -
  let ?h = "[PyColl [py_str ''run'', py_str ''ran'']]"
  have l: "1 \<le> length ?h" by simp
  note t = morphy_to_json_stateless [of lexicon "py_str ''run''" None ?h 1 lexicon
      "py_str ''ran''" "Some (py_str ''v'')"]
  have o: "outcome (lexicon (py_str ''run'') None ?h) = Some (Inr [(None, [py_str ''run''])])"
    by (simp add: lexicon_outcome deref_def py_str_simps)
  note t2 = t [THEN conjunct2, THEN conjunct1, THEN spec, THEN mp, OF o, THEN conjunct2]
  note t3 = t [THEN conjunct2, THEN conjunct2, THEN mp,
      OF conjI [OF lexicon_reads_only conjI [OF lexicon_reads_only l]],
      THEN conjunct2, THEN conjunct1]
  from t2 have "fst (morphy_to_json_heap lexicon (py_str ''run'') None ?h)
               = map_sum Raised (\<lambda>result. json_dumps (comprehension result))
                   (Inr [(None, [py_str ''run''])])" .
  then have "fst (morphy_to_json_heap lexicon (py_str ''run'') None ?h)
               = Inr (json_dumps (comprehension [(None, [py_str ''run''])]))"
    by (simp only: map_sum.simps)
  also have \<open>json_dumps (comprehension [(None, [py_str ''run''])]) = ''{"null": ["run"]}''\<close>
    by (simp add: dumps_eval)
  finally have a: \<open>fst (morphy_to_json_heap lexicon (py_str ''run'') None ?h)
      = Inr ''{"null": ["run"]}''\<close> .
  from t3
  have b: "fst (morphy_to_json_heap lexicon (py_str ''ran'') (Some (py_str ''v''))
           (snd (morphy_to_json_heap lexicon (py_str ''run'') None ?h)))
       = fst (morphy_to_json_heap lexicon (py_str ''ran'') (Some (py_str ''v'')) ?h)" .
  from lexicon_reads_only l b a show ?thesis by (intro conjI)
qed

text \<open>
  Claim C9 as stated, for every pair of invocations, fails with a lookup that keeps state:
  with \<open>toggling\<close> the second of two identical invocations returns another text than the
  first, and the shared object at address 0 has changed during the first.
\<close>

theorem morphy_to_json_stateless_counterexample:
  \<open>fst (morphy_to_json_heap toggling (py_str ''run'') None [PyColl []])
      = Inr ''{"null": ["run"]}''
   \<and> fst (morphy_to_json_heap toggling (py_str ''run'') None
           (snd (morphy_to_json_heap toggling (py_str ''run'') None [PyColl []])))
      = Inr ''{}''
   \<and> snd (morphy_to_json_heap toggling (py_str ''run'') None [PyColl []]) ! 0
      \<noteq> [PyColl []] ! 0
   \<and> fst (morphy_to_json_heap toggling (py_str ''run'') None
           (snd (morphy_to_json_heap toggling (py_str ''run'') None [PyColl []])))
      \<noteq> fst (morphy_to_json_heap toggling (py_str ''run'') None [PyColl []])\<close>
proof -
  let ?run = "py_str ''run''"
  have t: "toggling ?run None [PyColl []] =
             (Inr 2, [PyColl [?run], PyColl [?run], PyDict [(None, 1)]])"
    by (simp add: toggling_def alloc_def deref_def assign_def)
  have 1: \<open>morphy_to_json_heap toggling ?run None [PyColl []] =
          (Inr ''{"null": ["run"]}'',
           [PyColl [?run], PyColl [?run], PyDict [(None, 1)],
            PyDict [(Some (py_str ''null''), 4)], PyColl [?run]])\<close>
    by (simp only: morphy_to_json_heap_def t) (simp add: heap_eval dumps_eval)
  have t2: "toggling ?run None
              [PyColl [?run], PyColl [?run], PyDict [(None, 1)],
               PyDict [(Some (py_str ''null''), 4)], PyColl [?run]] =
             (Inr 5, [PyColl [?run], PyColl [?run], PyDict [(None, 1)],
               PyDict [(Some (py_str ''null''), 4)], PyColl [?run], PyDict []])"
    by (simp add: toggling_def alloc_def deref_def py_str_simps)
  have 2: \<open>fst (morphy_to_json_heap toggling ?run None
           (snd (morphy_to_json_heap toggling ?run None [PyColl []]))) = Inr ''{}''\<close>
    unfolding 1 snd_conv
    by (simp only: morphy_to_json_heap_def t2) (simp add: heap_eval dumps_eval)
  have 3: "snd (morphy_to_json_heap toggling ?run None [PyColl []]) ! 0 \<noteq> [PyColl []] ! 0"
    unfolding 1 by (simp add: py_str_simps)
  have 4: "fst (morphy_to_json_heap toggling ?run None
           (snd (morphy_to_json_heap toggling ?run None [PyColl []])))
      \<noteq> fst (morphy_to_json_heap toggling ?run None [PyColl []])"
    unfolding 2 unfolding 1 by simp
  from 1 2 3 4 show ?thesis by simp
qed

end
